theory Spec2Isabelle
  imports Complex_Main
begin

section \<open>MineClicker: the game board of \<^verbatim>\<open>mineclicker/lib.py\<close>\<close>

subsection \<open>Python values and exceptions\<close>

text \<open>
  The exceptions the engine can meet: unpacking a value that is not iterable and comparing
  a string or a sequence with a number raise \<^verbatim>\<open>TypeError\<close>, unpacking a sequence of the
  wrong length raises \<^verbatim>\<open>ValueError\<close>, indexing an array out of its bounds, or with a value
  numpy takes for no index, raises \<^verbatim>\<open>IndexError\<close>, and an integer index from \<open>2^63\<close> to
  \<open>2^64 - 1\<close> raises \<^verbatim>\<open>OverflowError\<close>.
\<close>

datatype error = TypeError | ValueError | IndexError | OverflowError

text \<open>
  A float is a rational number, an infinity or \<^verbatim>\<open>nan\<close>. Only its order with an integer is
  used, which Python decides exactly; every comparison with \<^verbatim>\<open>nan\<close> is false.
\<close>

datatype pyfloat = Finite rat | Infinity | NegInfinity | NaN

fun float_ge :: "pyfloat \<Rightarrow> int \<Rightarrow> bool" where
  "float_ge (Finite q) n = (of_int n \<le> q)"
| "float_ge Infinity n = True"
| "float_ge NegInfinity n = False"
| "float_ge NaN n = False"

fun float_lt :: "pyfloat \<Rightarrow> int \<Rightarrow> bool" where
  "float_lt (Finite q) n = (q < of_int n)"
| "float_lt Infinity n = False"
| "float_lt NegInfinity n = True"
| "float_lt NaN n = False"

text \<open>
  A location is documented as a tuple, and nothing checks what a caller passes: the
  test-suite passes strings and bare integers as well. \<open>pyval\<close> has the built-in values
  that matter here: integers, booleans, floats, strings, and tuples and lists of them.
\<close>

datatype pyval =
  PInt int | PBool bool | PFloat pyfloat | PStr string | PTuple "pyval list" | PList "pyval list"

text \<open>
  \<^verbatim>\<open>[row, col] = location\<close>: a tuple, a list or a string of exactly two items unpacks; a
  number is not iterable.
\<close>

fun unpack2 :: "pyval \<Rightarrow> error + (pyval \<times> pyval)" where
  "unpack2 (PInt i) = Inl TypeError"
| "unpack2 (PBool b) = Inl TypeError"
| "unpack2 (PFloat f) = Inl TypeError"
| "unpack2 (PStr [a, b]) = Inr (PStr [a], PStr [b])"
| "unpack2 (PStr s) = Inl ValueError"
| "unpack2 (PTuple [a, b]) = Inr (a, b)"
| "unpack2 (PTuple xs) = Inl ValueError"
| "unpack2 (PList [a, b]) = Inr (a, b)"
| "unpack2 (PList xs) = Inl ValueError"

text \<open>
  \<^verbatim>\<open>x >= n\<close> and \<^verbatim>\<open>x < n\<close> against an integer: only a number can be ordered with it,
  and a boolean is the number 1 or 0.
\<close>

fun py_ge :: "pyval \<Rightarrow> int \<Rightarrow> error + bool" where
  "py_ge (PInt i) n = Inr (i \<ge> n)"
| "py_ge (PBool b) n = Inr ((if b then 1 else 0) \<ge> n)"
| "py_ge (PFloat f) n = Inr (float_ge f n)"
| "py_ge v n = Inl TypeError"

fun py_lt :: "pyval \<Rightarrow> int \<Rightarrow> error + bool" where
  "py_lt (PInt i) n = Inr (i < n)"
| "py_lt (PBool b) n = Inr ((if b then 1 else 0) < n)"
| "py_lt (PFloat f) n = Inr (float_lt f n)"
| "py_lt v n = Inl TypeError"

text \<open>Python's \<^verbatim>\<open>or\<close>: the right operand is evaluated only when the left one is false.\<close>

definition py_or :: "error + bool \<Rightarrow> error + bool \<Rightarrow> error + bool" where
  "py_or a b = (case a of Inl e \<Rightarrow> Inl e | Inr True \<Rightarrow> Inr True | Inr False \<Rightarrow> b)"

subsection \<open>Two-dimensional numpy arrays\<close>

type_synonym 'a ndarray = "'a list list"

text \<open>
  numpy first converts every integer of an index to its index type, of 64 bits on the
  usual platforms. An integer from \<open>2^63\<close> to \<open>2^64 - 1\<close> is read as an unsigned number that
  does not fit (\<^verbatim>\<open>OverflowError\<close>); an integer beyond that, or below \<open>-2^63\<close>, is taken for no
  integer at all (\<^verbatim>\<open>IndexError\<close>).
\<close>

definition as_intp :: "int \<Rightarrow> error + int" where
  "as_intp i =
     (if 2 ^ 63 \<le> i \<and> i < 2 ^ 64 then Inl OverflowError
      else if i < - (2 ^ 63) \<or> 2 ^ 64 \<le> i then Inl IndexError
      else Inr i)"

text \<open>The items of a tuple are converted from left to right, before any bound is checked.\<close>

definition as_index :: "int \<times> int \<Rightarrow> error + int \<times> int" where
  "as_index loc =
     (case as_intp (fst loc) of
        Inl e \<Rightarrow> Inl e
      | Inr r \<Rightarrow> (case as_intp (snd loc) of Inl e \<Rightarrow> Inl e | Inr c \<Rightarrow> Inr (r, c)))"

text \<open>
  An index \<open>i\<close> into an axis of length \<open>n\<close>: numpy accepts \<open>-n \<le> i < n\<close>, a negative index
  counting from the end, and raises \<^verbatim>\<open>IndexError\<close> otherwise.
\<close>

definition norm_index :: "nat \<Rightarrow> int \<Rightarrow> error + nat" where
  "norm_index n i =
     (if - int n \<le> i \<and> i < int n then Inr (nat (if i < 0 then i + int n else i))
      else Inl IndexError)"

text \<open>Reading and writing the cell at a converted index: the row is checked, then the column.\<close>

definition getitem_intp :: "'a ndarray \<Rightarrow> int \<times> int \<Rightarrow> error + 'a" where
  "getitem_intp a loc =
     (case norm_index (length a) (fst loc) of
        Inl e \<Rightarrow> Inl e
      | Inr i \<Rightarrow>
          (case norm_index (length (a ! i)) (snd loc) of
             Inl e \<Rightarrow> Inl e
           | Inr j \<Rightarrow> Inr (a ! i ! j)))"

definition setitem_intp :: "'a ndarray \<Rightarrow> int \<times> int \<Rightarrow> 'a \<Rightarrow> error + 'a ndarray" where
  "setitem_intp a loc v =
     (case norm_index (length a) (fst loc) of
        Inl e \<Rightarrow> Inl e
      | Inr i \<Rightarrow>
          (case norm_index (length (a ! i)) (snd loc) of
             Inl e \<Rightarrow> Inl e
           | Inr j \<Rightarrow> Inr (a[i := (a ! i)[j := v]])))"

text \<open>\<^verbatim>\<open>a[location]\<close> and \<^verbatim>\<open>a[location] = v\<close> for a tuple of two integers.\<close>

definition getitem :: "'a ndarray \<Rightarrow> int \<times> int \<Rightarrow> error + 'a" where
  "getitem a loc = (case as_index loc of Inl e \<Rightarrow> Inl e | Inr k \<Rightarrow> getitem_intp a k)"

definition setitem :: "'a ndarray \<Rightarrow> int \<times> int \<Rightarrow> 'a \<Rightarrow> error + 'a ndarray" where
  "setitem a loc v = (case as_index loc of Inl e \<Rightarrow> Inl e | Inr k \<Rightarrow> setitem_intp a k v)"

text \<open>
  \<^verbatim>\<open>target[np.where(cond)] = v\<close> for a condition array of the shape of the target: every
  cell where the condition holds is overwritten, the others are kept.
\<close>

definition assign_where :: "('b \<Rightarrow> bool) \<Rightarrow> 'b ndarray \<Rightarrow> 'a \<Rightarrow> 'a ndarray \<Rightarrow> 'a ndarray" where
  "assign_where p cond v target =
     map2 (\<lambda>trow crow. map2 (\<lambda>t c. if p c then v else t) trow crow) target cond"

definition zeros :: "nat \<Rightarrow> nat \<Rightarrow> int ndarray" where
  "zeros r c = replicate r (replicate c 0)"

definition fill :: "'a ndarray \<Rightarrow> 'a \<Rightarrow> 'a ndarray" where
  "fill a v = map (map (\<lambda>_. v)) a"

text \<open>\<^verbatim>\<open>a[i] = v\<close>: every cell of a row is overwritten.\<close>

definition set_row :: "'a ndarray \<Rightarrow> nat \<Rightarrow> 'a \<Rightarrow> 'a ndarray" where
  "set_row a i v = a[i := map (\<lambda>_. v) (a ! i)]"

text \<open>
  An item of a tuple used as the index. numpy takes an integer as an index of the next axis
  and a boolean as an index of no axis that selects everything or nothing; a float or a
  string is no index (\<^verbatim>\<open>IndexError\<close>). An item that is itself a tuple or a list is
  not met here (lemma \<open>valid_location_True\<close>); the model answers \<^verbatim>\<open>IndexError\<close> for it.
\<close>

datatype index_item = Integer int | Boolean bool

fun as_item :: "pyval \<Rightarrow> error + index_item" where
  "as_item (PInt i) = (case as_intp i of Inl e \<Rightarrow> Inl e | Inr k \<Rightarrow> Inr (Integer k))"
| "as_item (PBool b) = Inr (Boolean b)"
| "as_item v = Inl IndexError"

text \<open>
  \<^verbatim>\<open>a[x, y] = v\<close> for converted items: two integers name one cell; an integer and a
  boolean name the whole row of the integer, or nothing when the boolean is false; two
  booleans name the whole array, or nothing unless both are true. The integers are checked
  against the bounds first.
\<close>

definition set_row_if :: "'a ndarray \<Rightarrow> int \<Rightarrow> bool \<Rightarrow> 'a \<Rightarrow> error + 'a ndarray" where
  "set_row_if a r t v =
     (case norm_index (length a) r of
        Inl e \<Rightarrow> Inl e
      | Inr i \<Rightarrow> Inr (if t then set_row a i v else a))"

fun assign_items :: "'a ndarray \<Rightarrow> index_item \<Rightarrow> index_item \<Rightarrow> 'a \<Rightarrow> error + 'a ndarray" where
  "assign_items a (Integer r) (Integer c) v = setitem_intp a (r, c) v"
| "assign_items a (Integer r) (Boolean t) v = set_row_if a r t v"
| "assign_items a (Boolean t) (Integer r) v = set_row_if a r t v"
| "assign_items a (Boolean s) (Boolean t) v = Inr (if s \<and> t then fill a v else a)"

text \<open>
  A list as the index is turned into an array. A list of integers, or of an integer and a
  boolean (which then counts as 1 or 0), is an array of row numbers; a list of booleans is
  a mask for the rows, and must have as many items as the array has rows; a list with a
  float or a string is no index. As above, a list of tuples or lists is not met here.
\<close>

fun array_item :: "pyval \<Rightarrow> index_item option" where
  "array_item (PInt i) = Some (Integer i)"
| "array_item (PBool b) = Some (Boolean b)"
| "array_item v = None"

fun row_number :: "index_item \<Rightarrow> int" where
  "row_number (Integer i) = i"
| "row_number (Boolean b) = (if b then 1 else 0)"

definition set_rows :: "'a ndarray \<Rightarrow> int \<Rightarrow> int \<Rightarrow> 'a \<Rightarrow> error + 'a ndarray" where
  "set_rows a r r' v =
     (case norm_index (length a) r of
        Inl e \<Rightarrow> Inl e
      | Inr i \<Rightarrow>
          (case norm_index (length a) r' of
             Inl e \<Rightarrow> Inl e
           | Inr j \<Rightarrow> Inr (set_row (set_row a i v) j v)))"

definition set_masked :: "'a ndarray \<Rightarrow> bool \<Rightarrow> bool \<Rightarrow> 'a \<Rightarrow> error + 'a ndarray" where
  "set_masked a s t v =
     (if length a = 2
      then Inr ((if t then (\<lambda>b. set_row b 1 v) else id) ((if s then (\<lambda>b. set_row b 0 v) else id) a))
      else Inl IndexError)"

fun assign_rows :: "'a ndarray \<Rightarrow> index_item \<Rightarrow> index_item \<Rightarrow> 'a \<Rightarrow> error + 'a ndarray" where
  "assign_rows a (Boolean s) (Boolean t) v = set_masked a s t v"
| "assign_rows a x y v = set_rows a (row_number x) (row_number y) v"

subsection \<open>The game object\<close>

record MineClicker =
  won :: bool
  lost :: bool
  quit :: bool
  grid :: "int ndarray"
  flagged :: "int ndarray"
  swept :: "int ndarray"
  number_of_mines :: int

definition max_number_of_adj_mines :: int where "max_number_of_adj_mines = 8"
definition unexplored :: int where "unexplored = 9"
definition mine :: int where "mine = 10"
definition exploded :: int where "exploded = 11"
definition flag :: int where "flag = 12"

definition rows :: nat where "rows = 8"
definition cols :: nat where "cols = 8"

text \<open>\<^verbatim>\<open>valid_location\<close>: only the unpacking is inside the \<^verbatim>\<open>try\<close>; the comparisons are not.\<close>

definition valid_location :: "pyval \<Rightarrow> error + bool" where
  "valid_location location =
     (case unpack2 location of
        Inl e \<Rightarrow> Inr False
      | Inr (row, col) \<Rightarrow>
          (case py_or (py_ge row (int rows)) (py_or (py_lt row 0)
                  (py_or (py_ge col (int cols)) (py_lt col 0))) of
             Inl e \<Rightarrow> Inl e
           | Inr True \<Rightarrow> Inr False
           | Inr False \<Rightarrow> Inr True))"

text \<open>A tuple of two integers, the form every location of the engine's own making has.\<close>

definition tuple2 :: "int \<times> int \<Rightarrow> pyval" where
  "tuple2 loc = PTuple [PInt (fst loc), PInt (snd loc)]"

text \<open>
  \<^verbatim>\<open>self.grid[location] = v\<close> for a Python value as the index. The constructor comes
  here only with a value that \<^verbatim>\<open>valid_location\<close> has accepted, which is a tuple or a list
  of two numbers (lemma \<open>valid_location_True\<close> below): the first two equations are numpy's
  for these. No other value is met here; the model answers \<^verbatim>\<open>IndexError\<close> for them.
\<close>

fun setitem_py :: "'a ndarray \<Rightarrow> pyval \<Rightarrow> 'a \<Rightarrow> error + 'a ndarray" where
  "setitem_py a (PTuple [x, y]) v =
     (case as_item x of
        Inl e \<Rightarrow> Inl e
      | Inr i \<Rightarrow> (case as_item y of Inl e \<Rightarrow> Inl e | Inr j \<Rightarrow> assign_items a i j v))"
| "setitem_py a (PList [x, y]) v =
     (case array_item x of
        None \<Rightarrow> Inl IndexError
      | Some i \<Rightarrow> (case array_item y of None \<Rightarrow> Inl IndexError | Some j \<Rightarrow> assign_rows a i j v))"
| "setitem_py a location v = Inl IndexError"

subsection \<open>Construction\<close>

text \<open>The part of \<^verbatim>\<open>__init__\<close> before the mines are laid.\<close>

definition blank :: MineClicker where
  "blank = \<lparr> won = False, lost = False, quit = False,
             grid = fill (zeros rows cols) unexplored,
             flagged = zeros rows cols,
             swept = zeros rows cols,
             number_of_mines = 0 \<rparr>"

text \<open>The loop over the flat indices that \<^verbatim>\<open>random.sample\<close> has drawn.\<close>

fun lay_sampled :: "nat list \<Rightarrow> int ndarray \<Rightarrow> error + int ndarray" where
  "lay_sampled [] g = Inr g"
| "lay_sampled (location # rest) g =
     (case setitem g (int (location div cols), int (location mod cols)) mine of
        Inl e \<Rightarrow> Inl e
      | Inr g' \<Rightarrow> lay_sampled rest g')"

text \<open>The loop over the locations the caller has given.\<close>

fun lay_given :: "pyval list \<Rightarrow> MineClicker \<Rightarrow> error + MineClicker" where
  "lay_given [] s = Inr s"
| "lay_given (location # rest) s =
     (case valid_location location of
        Inl e \<Rightarrow> Inl e
      | Inr False \<Rightarrow> lay_given rest s
      | Inr True \<Rightarrow>
          (case setitem_py (grid s) location mine of
             Inl e \<Rightarrow> Inl e
           | Inr g \<Rightarrow> lay_given rest (s\<lparr>grid := g, number_of_mines := number_of_mines s + 1\<rparr>)))"

text \<open>
  \<^verbatim>\<open>__init__(locations)\<close>. The first argument stands for the list that
  \<^verbatim>\<open>rand.sample(range(rows*cols), 10)\<close> returns; it is read only when no locations are given.
\<close>

definition init :: "nat list \<Rightarrow> pyval list option \<Rightarrow> error + MineClicker" where
  "init sample locations =
     (case locations of
        None \<Rightarrow>
          (case lay_sampled sample (grid blank) of
             Inl e \<Rightarrow> Inl e
           | Inr g \<Rightarrow> Inr (blank\<lparr>number_of_mines := 10, grid := g\<rparr>))
      | Some locs \<Rightarrow> lay_given locs (blank\<lparr>number_of_mines := 0\<rparr>))"

text \<open>What \<^verbatim>\<open>rand.sample(range(rows*cols), 10)\<close> can return: ten distinct flat indices.\<close>

definition sampled :: "nat list \<Rightarrow> bool" where
  "sampled sample \<longleftrightarrow> length sample = 10 \<and> distinct sample \<and> (\<forall>i \<in> set sample. i < rows * cols)"

subsection \<open>Operations\<close>

text \<open>
  \<^verbatim>\<open>player_view\<close> returns an array of floats: every cell is the float of a grid value, the
  float of \<^verbatim>\<open>self.flag\<close>, or \<^verbatim>\<open>nan\<close>. A cell of the view is an \<open>int option\<close>, with \<open>None\<close> for
  \<^verbatim>\<open>nan\<close>. The function returns the view together with the object, which it leaves as it is.
\<close>

definition player_view :: "MineClicker \<Rightarrow> int option ndarray \<times> MineClicker" where
  "player_view s =
     (let view = map (map Some) (grid s);
          view = assign_where (\<lambda>x. x = mine) (grid s) None view;
          view = assign_where (\<lambda>x. x = unexplored) (grid s) None view;
          view = assign_where (\<lambda>x. x = 1) (flagged s) (Some flag) view
      in (view, s))"

text \<open>\<^verbatim>\<open>flag_tile\<close>: \<^verbatim>\<open>not x\<close> on an integer cell is true for 0 only, and is stored as 1 or 0.\<close>

definition flag_tile :: "MineClicker \<Rightarrow> int \<times> int \<Rightarrow> error + MineClicker" where
  "flag_tile s location =
     (case getitem (flagged s) location of
        Inl e \<Rightarrow> Inl e
      | Inr x \<Rightarrow>
          (case setitem (flagged s) location (if x = 0 then 1 else 0) of
             Inl e \<Rightarrow> Inl e
           | Inr f \<Rightarrow> Inr (s\<lparr>flagged := f\<rparr>)))"

definition clear_swept_flags :: "MineClicker \<Rightarrow> MineClicker" where
  "clear_swept_flags s = s\<lparr>flagged := assign_where (\<lambda>x. x \<noteq> 0) (swept s) 0 (flagged s)\<rparr>"

definition adjacent_locations :: "int \<times> int \<Rightarrow> (int \<times> int) list" where
  "adjacent_locations location =
     (let row = fst location; col = snd location in
      [(row + 1, col), (row - 1, col), (row, col + 1), (row, col - 1),
       (row + 1, col + 1), (row + 1, col - 1), (row - 1, col + 1), (row - 1, col - 1)])"

text \<open>The loop of \<^verbatim>\<open>sum_adjacent_mines\<close>, with its counter as the accumulator.\<close>

fun count_adjacent :: "int ndarray \<Rightarrow> (int \<times> int) list \<Rightarrow> int \<Rightarrow> error + int" where
  "count_adjacent g [] adjacent_mines = Inr adjacent_mines"
| "count_adjacent g (location # rest) adjacent_mines =
     (case valid_location (tuple2 location) of
        Inl e \<Rightarrow> Inl e
      | Inr False \<Rightarrow> count_adjacent g rest adjacent_mines
      | Inr True \<Rightarrow>
          (case getitem g location of
             Inl e \<Rightarrow> Inl e
           | Inr x \<Rightarrow>
               count_adjacent g rest (if x = mine then adjacent_mines + 1 else adjacent_mines)))"

definition sum_adjacent_mines :: "MineClicker \<Rightarrow> int \<times> int \<Rightarrow> error + int" where
  "sum_adjacent_mines s location = count_adjacent (grid s) (adjacent_locations location) 0"

definition check_game_state :: "MineClicker \<Rightarrow> MineClicker" where
  "check_game_state s =
     (if exploded \<in> set (concat (grid s)) then s\<lparr>lost := True\<rparr>
      else if \<not> (\<exists>x \<in> set (concat (grid s)). x = unexplored) then s\<lparr>won := True\<rparr>
      else s)"

text \<open>
  \<^verbatim>\<open>sweep_tile\<close>. The first statement writes the swept array; when it raises nothing
  has been written yet.
\<close>

definition sweep_tile :: "MineClicker \<Rightarrow> int \<times> int \<Rightarrow> error + MineClicker" where
  "sweep_tile s location =
     (case setitem (swept s) location 1 of
        Inl e \<Rightarrow> Inl e
      | Inr sw \<Rightarrow>
          (let s1 = s\<lparr>swept := sw\<rparr> in
           case getitem (grid s1) location of
             Inl e \<Rightarrow> Inl e
           | Inr x \<Rightarrow>
               if x = mine then
                 (case setitem (grid s1) location exploded of
                    Inl e \<Rightarrow> Inl e
                  | Inr g \<Rightarrow> Inr (check_game_state (s1\<lparr>grid := g\<rparr>)))
               else
                 (case sum_adjacent_mines s1 location of
                    Inl e \<Rightarrow> Inl e
                  | Inr n \<Rightarrow>
                      (case setitem (grid s1) location n of
                         Inl e \<Rightarrow> Inl e
                       | Inr g \<Rightarrow> Inr (check_game_state (s1\<lparr>grid := g\<rparr>))))))"

definition exit_game :: "MineClicker \<Rightarrow> MineClicker" where
  "exit_game s = s\<lparr>quit := True\<rparr>"

text \<open>
  The sweep of \<^verbatim>\<open>cli_take_action\<close>, for a location the command has given:
  \<^verbatim>\<open>self.sweep_tile(location)\<close> and then \<^verbatim>\<open>self.clear_swept_flags()\<close>.
\<close>

definition sweep_action :: "MineClicker \<Rightarrow> int \<times> int \<Rightarrow> error + MineClicker" where
  "sweep_action s location =
     (case sweep_tile s location of Inl e \<Rightarrow> Inl e | Inr s' \<Rightarrow> Inr (clear_swept_flags s'))"

subsection \<open>States of a game\<close>

text \<open>A freshly constructed game: from given locations, or from a sample of ten flat indices.\<close>

inductive constructed :: "MineClicker \<Rightarrow> bool" where
  given: "init sample (Some locations) = Inr s \<Longrightarrow> constructed s"
| random: "sampled sample \<Longrightarrow> init sample None = Inr s \<Longrightarrow> constructed s"

text \<open>
  \<open>reaches may_sweep s0 s\<close>: the state \<open>s\<close> is the result of a sequence of calls of
  \<^verbatim>\<open>sweep_tile\<close>, \<^verbatim>\<open>flag_tile\<close>, \<^verbatim>\<open>clear_swept_flags\<close> and \<^verbatim>\<open>exit_game\<close> on \<open>s0\<close>, where a
  sweep is made only when \<open>may_sweep\<close> allows it in the state it is called in. A call that
  raises has written nothing and is no step. With \<open>\<lambda>s location. True\<close> the sequence is
  arbitrary.
\<close>

inductive reaches ::
  "(MineClicker \<Rightarrow> int \<times> int \<Rightarrow> bool) \<Rightarrow> MineClicker \<Rightarrow> MineClicker \<Rightarrow> bool"
  for may_sweep :: "MineClicker \<Rightarrow> int \<times> int \<Rightarrow> bool" and s0 :: MineClicker where
  start: "reaches may_sweep s0 s0"
| sweep: "reaches may_sweep s0 s \<Longrightarrow> may_sweep s location \<Longrightarrow> sweep_tile s location = Inr s'
          \<Longrightarrow> reaches may_sweep s0 s'"
| flag: "reaches may_sweep s0 s \<Longrightarrow> flag_tile s location = Inr s' \<Longrightarrow> reaches may_sweep s0 s'"
| clear: "reaches may_sweep s0 s \<Longrightarrow> reaches may_sweep s0 (clear_swept_flags s)"
| exit: "reaches may_sweep s0 s \<Longrightarrow> reaches may_sweep s0 (exit_game s)"

text \<open>A sequence of calls, as a test or a caller makes them; the first exception ends it.\<close>

datatype action = Sweep "int \<times> int" | Flag "int \<times> int" | Clear | Exit

fun act :: "MineClicker \<Rightarrow> action \<Rightarrow> error + MineClicker" where
  "act s (Sweep location) = sweep_tile s location"
| "act s (Flag location) = flag_tile s location"
| "act s Clear = Inr (clear_swept_flags s)"
| "act s Exit = Inr (exit_game s)"

fun play :: "MineClicker \<Rightarrow> action list \<Rightarrow> error + MineClicker" where
  "play s [] = Inr s"
| "play s (a # rest) = (case act s a of Inl e \<Rightarrow> Inl e | Inr s' \<Rightarrow> play s' rest)"

text \<open>The board of \<^verbatim>\<open>test_sweep_tile\<close>: mines at (1, 6), (3, 1) and (5, 1).\<close>

definition test_board :: MineClicker where
  "test_board = projr (init [] (Some [tuple2 (1, 6), tuple2 (3, 1), tuple2 (5, 1)]))"

text \<open>
  A board with a mine on every tile but (0, 0): the game constructed from the list of all
  locations, row by row, without its first.
\<close>

definition all_locations :: "(int \<times> int) list" where
  "all_locations = List.product (map int [0..<rows]) (map int [0..<cols])"

definition crowded_board :: MineClicker where
  "crowded_board = projr (init [] (Some (map tuple2 (tl all_locations))))"

definition any_sweep :: "MineClicker \<Rightarrow> int \<times> int \<Rightarrow> bool" where
  "any_sweep s location = True"

text \<open>A sweep while the game is neither won nor lost.\<close>

definition in_progress :: "MineClicker \<Rightarrow> int \<times> int \<Rightarrow> bool" where
  "in_progress s location \<longleftrightarrow> \<not> won s \<and> \<not> lost s"

text \<open>A sweep of a tile that does not hold a detonated mine.\<close>

definition not_detonated :: "MineClicker \<Rightarrow> int \<times> int \<Rightarrow> bool" where
  "not_detonated s location \<longleftrightarrow> getitem (grid s) location \<noteq> Inr exploded"

subsection \<open>Notions of the specification\<close>

text \<open>A valid location: a pair of integers inside the board.\<close>

definition in_bounds :: "int \<times> int \<Rightarrow> bool" where
  "in_bounds location \<longleftrightarrow>
     0 \<le> fst location \<and> fst location < int rows \<and> 0 \<le> snd location \<and> snd location < int cols"

text \<open>The number of distinct valid locations in a list of candidates.\<close>

definition distinct_valid :: "pyval list \<Rightarrow> nat" where
  "distinct_valid locations = card (set (filter (\<lambda>l. valid_location l = Inr True) locations))"

text \<open>No valid location occurs twice in the list of candidates.\<close>

definition no_repeats :: "pyval list \<Rightarrow> bool" where
  "no_repeats locations \<longleftrightarrow> distinct (filter (\<lambda>l. valid_location l = Inr True) locations)"

text \<open>A number: an integer, a boolean or a float.\<close>

fun number :: "pyval \<Rightarrow> bool" where
  "number (PInt i) = True"
| "number (PBool b) = True"
| "number (PFloat f) = True"
| "number v = False"

text \<open>
  Every candidate that \<open>valid_location\<close> accepts is a tuple of two integers, as the
  constructor documents its locations.
\<close>

fun int_tuple :: "pyval \<Rightarrow> bool" where
  "int_tuple (PTuple [PInt r, PInt c]) = True"
| "int_tuple v = False"

definition tuples_only :: "pyval list \<Rightarrow> bool" where
  "tuples_only locations \<longleftrightarrow>
     (\<forall>l \<in> set locations. valid_location l = Inr True \<longrightarrow> int_tuple l)"

text \<open>The cell of an array at a valid location.\<close>

definition cell :: "'a ndarray \<Rightarrow> int \<times> int \<Rightarrow> 'a" where
  "cell a location = a ! nat (fst location) ! nat (snd location)"

text \<open>The array with the cell at a valid location replaced.\<close>

definition replaced :: "'a ndarray \<Rightarrow> int \<times> int \<Rightarrow> 'a \<Rightarrow> 'a ndarray" where
  "replaced a location v =
     a[nat (fst location) := (a ! nat (fst location))[nat (snd location) := v]]"

text \<open>An array of the shape of the board.\<close>

definition shaped :: "'a ndarray \<Rightarrow> bool" where
  "shaped a \<longleftrightarrow> length a = rows \<and> (\<forall>row \<in> set a. length row = cols)"

text \<open>Some cell of the array holds the value.\<close>

definition holds :: "'a ndarray \<Rightarrow> 'a \<Rightarrow> bool" where
  "holds a v \<longleftrightarrow> (\<exists>r < length a. \<exists>c < length (a ! r). a ! r ! c = v)"

text \<open>The number of cells that hold a mine, detonated or not.\<close>

definition mined_cells :: "int ndarray \<Rightarrow> nat" where
  "mined_cells g = length (filter (\<lambda>x. x = mine \<or> x = exploded) (concat g))"

text \<open>The neighbours of a location: the valid locations one step away in any direction.\<close>

definition neighbours :: "int \<times> int \<Rightarrow> (int \<times> int) set" where
  "neighbours location =
     {n. in_bounds n \<and> n \<noteq> location \<and>
         \<bar>fst n - fst location\<bar> \<le> 1 \<and> \<bar>snd n - snd location\<bar> \<le> 1}"

text \<open>The number of undetonated mines among the neighbours of a location.\<close>

definition adjacent_mines :: "int ndarray \<Rightarrow> int \<times> int \<Rightarrow> nat" where
  "adjacent_mines g location = card {n \<in> neighbours location. cell g n = mine}"

text \<open>
  The grid after the sweep of a valid location: a mine is detonated, any other tile shows
  the number of undetonated mines among its neighbours.
\<close>

definition swept_grid :: "int ndarray \<Rightarrow> int \<times> int \<Rightarrow> int ndarray" where
  "swept_grid g location =
     replaced g location
       (if cell g location = mine then exploded else int (adjacent_mines g location))"

text \<open>
  The locations numpy takes as an index of the board, and the cell such an index stands
  for: a negative index counts from the end of its axis.
\<close>

definition indexable :: "int \<times> int \<Rightarrow> bool" where
  "indexable location \<longleftrightarrow>
     - int rows \<le> fst location \<and> fst location < int rows \<and>
     - int cols \<le> snd location \<and> snd location < int cols"

definition wrapped :: "int \<times> int \<Rightarrow> int \<times> int" where
  "wrapped location = (fst location mod int rows, snd location mod int cols)"

text \<open>
  The exception for a location that is no index of the board: \<^verbatim>\<open>OverflowError\<close> when
  the first coordinate outside the signed 64-bit range lies between \<open>2^63\<close> and \<open>2^64 - 1\<close>,
  \<^verbatim>\<open>IndexError\<close> in every other case.
\<close>

definition int64 :: "int \<Rightarrow> bool" where
  "int64 i \<longleftrightarrow> - (2 ^ 63) \<le> i \<and> i < 2 ^ 63"

definition uint64_only :: "int \<Rightarrow> bool" where
  "uint64_only i \<longleftrightarrow> 2 ^ 63 \<le> i \<and> i < 2 ^ 64"

definition index_exception :: "int \<times> int \<Rightarrow> error" where
  "index_exception location =
     (if uint64_only (fst location) \<or> (int64 (fst location) \<and> uint64_only (snd location))
      then OverflowError else IndexError)"

text \<open>The game with the flag at a valid location flipped, and nothing else changed.\<close>

definition toggled :: "MineClicker \<Rightarrow> int \<times> int \<Rightarrow> MineClicker" where
  "toggled s location =
     s\<lparr>flagged := replaced (flagged s) location (if cell (flagged s) location = 0 then 1 else 0)\<rparr>"

text \<open>The swept tiles that still carry a flag.\<close>

definition swept_and_flagged :: "MineClicker \<Rightarrow> (int \<times> int) set" where
  "swept_and_flagged s =
     {location. in_bounds location \<and> cell (swept s) location \<noteq> 0 \<and> cell (flagged s) location \<noteq> 0}"

text \<open>The arrays of a game have the shape of the board, and a flag is 0 or 1.\<close>

definition well_formed :: "MineClicker \<Rightarrow> bool" where
  "well_formed s \<longleftrightarrow>
     shaped (grid s) \<and> shaped (flagged s) \<and> shaped (swept s) \<and>
     (\<forall>x \<in> set (concat (flagged s)). x = 0 \<or> x = 1)"

section \<open>Properties\<close>

subsection \<open>Arrays and locations\<close>

lemma holds_iff: "holds a v \<longleftrightarrow> v \<in> set (concat a)"
  by (auto simp: holds_def in_set_conv_nth) (metis in_set_conv_nth nth_mem)+

text \<open>The game constructed from an empty list of locations is the blank board.\<close>

lemma init_empty: "init sample (Some []) = Inr blank"
  by (simp add: init_def blank_def)

subsection \<open>Construction from given locations\<close>

text \<open>
  C1. The claim: constructed from a list of locations, \<open>number_of_mines\<close> is the number of
  distinct valid locations of the list, and an invalid or malformed entry is skipped without
  an exception. The constructor does neither: it adds one for every valid entry, so that the
  list \<open>[(1, 1), (1, 1)]\<close> gives \<open>number_of_mines = 2\<close> over a board with one mine and one
  distinct valid location; and the entry \<open>"ab"\<close>, a string of two characters, ends
  the construction with a \<^verbatim>\<open>TypeError\<close>.
\<close>

theorem init_counts_duplicates:
  "map_sum id number_of_mines (init [] (Some [tuple2 (1, 1), tuple2 (1, 1)])) = Inr 2 \<and>
   map_sum id (\<lambda>s. mined_cells (grid s)) (init [] (Some [tuple2 (1, 1), tuple2 (1, 1)])) = Inr 1 \<and>
   distinct_valid [tuple2 (1, 1), tuple2 (1, 1)] = 1 \<and>
   init [] (Some [PStr ''ab'']) = Inl TypeError"
  by code_simp

subsection \<open>Winning and losing\<close>

text \<open>
  C4. \<open>check_game_state\<close> looks for a detonated mine first: when a cell holds one, \<open>lost\<close>
  is set and \<open>won\<close> is left as it was (so a board without an unexplored cell and with a
  detonated mine is lost and, unless won before, not won); when no cell holds a detonated
  mine and none is unexplored, \<open>won\<close> is set; otherwise neither flag changes. Nothing
  else of the game changes.
\<close>

theorem check_game_state_order:
  "(holds (grid s) exploded \<longrightarrow>
      lost (check_game_state s) \<and> won (check_game_state s) = won s) \<and>
   (holds (grid s) exploded \<and> \<not> holds (grid s) unexplored \<and> \<not> won s \<longrightarrow>
      lost (check_game_state s) \<and> \<not> won (check_game_state s)) \<and>
   (\<not> holds (grid s) exploded \<and> \<not> holds (grid s) unexplored \<longrightarrow>
      won (check_game_state s) \<and> lost (check_game_state s) = lost s) \<and>
   (\<not> holds (grid s) exploded \<and> holds (grid s) unexplored \<longrightarrow>
      won (check_game_state s) = won s \<and> lost (check_game_state s) = lost s) \<and>
   grid (check_game_state s) = grid s \<and> flagged (check_game_state s) = flagged s \<and>
   swept (check_game_state s) = swept s \<and> quit (check_game_state s) = quit s \<and>
   number_of_mines (check_game_state s) = number_of_mines s"
  by (simp add: holds_iff check_game_state_def)

text \<open>The boards of the test-suite: lost, won, and still in play.\<close>

theorem check_game_state_order_witness:
  "holds (grid (blank\<lparr>grid := [[1, 1], [1, 11]]\<rparr>)) exploded \<and>
   \<not> holds (grid (blank\<lparr>grid := [[1, 1], [1, 11]]\<rparr>)) unexplored \<and>
   \<not> won (blank\<lparr>grid := [[1, 1], [1, 11]]\<rparr>) \<and>
   lost (check_game_state (blank\<lparr>grid := [[1, 1], [1, 11]]\<rparr>)) \<and>
   \<not> won (check_game_state (blank\<lparr>grid := [[1, 1], [1, 11]]\<rparr>)) \<and>
   \<not> holds (grid (blank\<lparr>grid := [[10, 1], [1, 1]]\<rparr>)) exploded \<and>
   \<not> holds (grid (blank\<lparr>grid := [[10, 1], [1, 1]]\<rparr>)) unexplored \<and>
   won (check_game_state (blank\<lparr>grid := [[10, 1], [1, 1]]\<rparr>)) \<and>
   \<not> lost (check_game_state (blank\<lparr>grid := [[10, 1], [1, 1]]\<rparr>)) \<and>
   \<not> holds (grid (blank\<lparr>grid := [[9, 1], [10, 1]]\<rparr>)) exploded \<and>
   holds (grid (blank\<lparr>grid := [[9, 1], [10, 1]]\<rparr>)) unexplored \<and>
   \<not> won (check_game_state (blank\<lparr>grid := [[9, 1], [10, 1]]\<rparr>)) \<and>
   \<not> lost (check_game_state (blank\<lparr>grid := [[9, 1], [10, 1]]\<rparr>))"
  using check_game_state_order [of "blank\<lparr>grid := [[1, 1], [1, 11]]\<rparr>"]
        check_game_state_order [of "blank\<lparr>grid := [[10, 1], [1, 1]]\<rparr>"]
        check_game_state_order [of "blank\<lparr>grid := [[9, 1], [10, 1]]\<rparr>"]
  by (simp add: holds_iff blank_def exploded_def unexplored_def)

subsection \<open>Valid locations\<close>

text \<open>
  C8. The claim: \<open>valid_location\<close> answers false for every malformed input and never
  raises. It raises for an input that unpacks into two items that are not numbers: the
  comparisons with the bounds stand outside the \<^verbatim>\<open>try\<close>. So for the string \<open>"ab"\<close>, and for
  the tuple \<open>(1, "a")\<close>.
\<close>

theorem valid_location_two_letters:
  "valid_location (PStr ''ab'') = Inl TypeError \<and>
   valid_location (PTuple [PInt 1, PStr ''a'']) = Inl TypeError"
  by (simp add: valid_location_def py_or_def rows_def cols_def)

subsection \<open>Arrays of the shape of the board\<close>

lemma shaped_update_row:
  assumes "shaped a" and "length r = cols"
  shows "shaped (a[i := r])"
  unfolding shaped_def
proof (intro conjI ballI)
  show "length (a[i := r]) = rows"
    using assms(1) by (simp add: shaped_def)
next
  fix row
  assume "row \<in> set (a[i := r])"
  then have "row = r \<or> row \<in> set a"
    using set_update_subset_insert [of a i r] by blast
  then show "length row = cols"
    using assms by (auto simp: shaped_def)
qed

lemma shaped_update: "shaped a \<Longrightarrow> shaped (a[i := (a ! i)[j := v]])"
proof (cases "i < length a")
  case True
  assume a: "shaped a"
  then have "length ((a ! i)[j := v]) = cols"
    using True by (simp add: shaped_def)
  with a show ?thesis
    by (rule shaped_update_row)
next
  case False
  assume a: "shaped a"
  from False have "a[i := (a ! i)[j := v]] = a"
    by (simp add: list_update_beyond)
  then show ?thesis
    using a by simp
qed

lemma shaped_set_row: "shaped a \<Longrightarrow> shaped (set_row a i v)"
proof (cases "i < length a")
  case True
  assume a: "shaped a"
  then have "length (map (\<lambda>_. v) (a ! i)) = cols"
    using True by (simp add: shaped_def)
  with a show ?thesis
    unfolding set_row_def by (rule shaped_update_row)
next
  case False
  assume a: "shaped a"
  from False have "set_row a i v = a"
    by (simp add: set_row_def list_update_beyond)
  then show ?thesis
    using a by simp
qed

lemma shaped_fill: "shaped a \<Longrightarrow> shaped (fill a v)"
  by (simp add: shaped_def fill_def)

lemma as_intp_Inr: "as_intp i = Inr k \<Longrightarrow> k = i"
  by (simp add: as_intp_def split: if_splits)

lemma as_index_Inr: "as_index loc = Inr k \<Longrightarrow> k = loc"
proof -
  assume a: "as_index loc = Inr k"
  then obtain r where r: "as_intp (fst loc) = Inr r"
    by (cases "as_intp (fst loc)") (simp_all add: as_index_def)
  with a obtain c where c: "as_intp (snd loc) = Inr c"
    by (cases "as_intp (snd loc)") (simp_all add: as_index_def)
  from a r c have "k = (r, c)"
    by (simp add: as_index_def)
  with as_intp_Inr [OF r] as_intp_Inr [OF c] show ?thesis
    by simp
qed

lemma as_intp_board: "- 8 \<le> i \<Longrightarrow> i < 8 \<Longrightarrow> as_intp i = Inr i"
  by (simp add: as_intp_def)

lemma as_index_board:
  assumes "- int rows \<le> fst loc" and "fst loc < int rows"
    and "- int cols \<le> snd loc" and "snd loc < int cols"
  shows "as_index loc = Inr loc"
  using assms by (simp add: as_index_def as_intp_board rows_def cols_def)

lemma setitem_intp_shaped: "shaped a \<Longrightarrow> setitem_intp a loc v = Inr a' \<Longrightarrow> shaped a'"
  by (auto simp: setitem_intp_def shaped_update split: sum.splits)

lemma setitem_Inr:
  assumes "setitem a loc v = Inr a'"
  shows "setitem_intp a loc v = Inr a'"
proof (cases "as_index loc")
  case (Inl e)
  with assms show ?thesis by (simp add: setitem_def)
next
  case (Inr k)
  with assms as_index_Inr [OF Inr] show ?thesis by (simp add: setitem_def)
qed

lemma setitem_shaped:
  assumes "shaped a" and "setitem a loc v = Inr a'"
  shows "shaped a'"
  using assms(1) setitem_Inr [OF assms(2)] by (rule setitem_intp_shaped)

lemma set_row_if_shaped:
  assumes "shaped a" and "set_row_if a r t v = Inr a'"
  shows "shaped a'"
proof -
  from assms(2) obtain i where "norm_index (length a) r = Inr i"
    by (cases "norm_index (length a) r") (simp_all add: set_row_if_def)
  with assms(2) have "a' = (if t then set_row a i v else a)"
    by (simp add: set_row_if_def)
  with assms(1) show ?thesis
    by (simp add: shaped_set_row)
qed

lemma set_rows_shaped:
  assumes "shaped a" and "set_rows a r r' v = Inr a'"
  shows "shaped a'"
proof -
  from assms(2) obtain i where i: "norm_index (length a) r = Inr i"
    by (cases "norm_index (length a) r") (simp_all add: set_rows_def)
  with assms(2) obtain j where j: "norm_index (length a) r' = Inr j"
    by (cases "norm_index (length a) r'") (simp_all add: set_rows_def)
  from assms(2) i j have "a' = set_row (set_row a i v) j v"
    by (simp add: set_rows_def)
  with assms(1) show ?thesis
    by (simp add: shaped_set_row)
qed

lemma set_masked_shaped:
  assumes "shaped a" and "set_masked a s t v = Inr a'"
  shows "shaped a'"
  using assms by (auto simp: set_masked_def shaped_set_row split: if_splits)

lemma assign_items_shaped:
  assumes "shaped a" and "assign_items a i j v = Inr a'"
  shows "shaped a'"
proof (cases i)
  case (Integer r)
  show ?thesis
  proof (cases j)
    case (Integer c)
    with assms \<open>i = Integer r\<close> show ?thesis
      by (auto intro: setitem_intp_shaped)
  next
    case (Boolean t)
    with assms \<open>i = Integer r\<close> show ?thesis
      by (auto intro: set_row_if_shaped)
  qed
next
  case (Boolean s)
  show ?thesis
  proof (cases j)
    case (Integer r)
    with assms \<open>i = Boolean s\<close> show ?thesis
      by (auto intro: set_row_if_shaped)
  next
    case (Boolean t)
    with assms \<open>i = Boolean s\<close> show ?thesis
      by (auto simp: shaped_fill)
  qed
qed

lemma assign_rows_shaped:
  assumes "shaped a" and "assign_rows a i j v = Inr a'"
  shows "shaped a'"
proof (cases i)
  case (Integer r)
  with assms show ?thesis
    by (cases j) (auto intro: set_rows_shaped)
next
  case (Boolean s)
  with assms show ?thesis
    by (cases j) (auto intro: set_rows_shaped set_masked_shaped)
qed

lemma setitem_py_shaped:
  assumes "shaped a" and "setitem_py a l v = Inr a'"
  shows "shaped a'"
  using assms
proof (induction a l v rule: setitem_py.induct)
  case (1 a x y v)
  from "1.prems"(2) obtain i where i: "as_item x = Inr i"
    by (cases "as_item x") simp_all
  with "1.prems"(2) obtain j where j: "as_item y = Inr j"
    by (cases "as_item y") simp_all
  from "1.prems"(2) i j have "assign_items a i j v = Inr a'"
    by simp
  with "1.prems"(1) show ?case
    by (rule assign_items_shaped)
next
  case (2 a x y v)
  from "2.prems"(2) obtain i where i: "array_item x = Some i"
    by (cases "array_item x") simp_all
  with "2.prems"(2) obtain j where j: "array_item y = Some j"
    by (cases "array_item y") simp_all
  from "2.prems"(2) i j have "assign_rows a i j v = Inr a'"
    by simp
  with "2.prems"(1) show ?case
    by (rule assign_rows_shaped)
qed simp_all

lemma getitem_intp_in_bounds:
  "shaped a \<Longrightarrow> in_bounds loc \<Longrightarrow> getitem_intp a loc = Inr (cell a loc)"
  by (cases loc) (auto simp: getitem_intp_def in_bounds_def cell_def norm_index_def shaped_def)

lemma setitem_intp_in_bounds:
  "shaped a \<Longrightarrow> in_bounds loc \<Longrightarrow> setitem_intp a loc v = Inr (replaced a loc v)"
  by (cases loc) (auto simp: setitem_intp_def in_bounds_def norm_index_def shaped_def replaced_def)

lemma as_index_in_bounds: "in_bounds loc \<Longrightarrow> as_index loc = Inr loc"
  by (rule as_index_board) (simp_all add: in_bounds_def)

lemma getitem_in_bounds:
  "shaped a \<Longrightarrow> in_bounds loc \<Longrightarrow> getitem a loc = Inr (cell a loc)"
  by (simp add: getitem_def as_index_in_bounds getitem_intp_in_bounds)

lemma setitem_in_bounds:
  "shaped a \<Longrightarrow> in_bounds loc \<Longrightarrow> setitem a loc v = Inr (replaced a loc v)"
  by (simp add: setitem_def as_index_in_bounds setitem_intp_in_bounds)

lemma valid_location_tuple2: "valid_location (tuple2 loc) = Inr (in_bounds loc)"
  by (cases loc) (simp add: valid_location_def tuple2_def py_or_def in_bounds_def not_le not_less split: bool.splits)

lemma in_bounds_nat: "in_bounds loc \<Longrightarrow> nat (fst loc) < rows \<and> nat (snd loc) < cols"
  by (simp add: in_bounds_def nat_less_iff)

lemma cell_replaced_same:
  "shaped a \<Longrightarrow> in_bounds loc \<Longrightarrow> cell (replaced a loc v) loc = v"
  using in_bounds_nat [of loc] by (simp add: cell_def replaced_def shaped_def)

lemma replaced_twice: "replaced (replaced a loc v) loc w = replaced a loc w"
proof (cases "nat (fst loc) < length a")
  case True
  then show ?thesis by (simp add: replaced_def)
next
  case False
  then show ?thesis by (simp add: replaced_def list_update_beyond)
qed

lemma replaced_cell: "replaced a loc (cell a loc) = a"
  by (simp add: replaced_def cell_def)

lemma cell_in_concat:
  "shaped a \<Longrightarrow> in_bounds loc \<Longrightarrow> cell a loc \<in> set (concat a)"
proof -
  assume a: "shaped a" and b: "in_bounds loc"
  have r: "nat (fst loc) < length a"
    using a in_bounds_nat [OF b] by (simp add: shaped_def)
  then have row: "a ! nat (fst loc) \<in> set a"
    by simp
  then have "nat (snd loc) < length (a ! nat (fst loc))"
    using a in_bounds_nat [OF b] by (simp add: shaped_def)
  then have "cell a loc \<in> set (a ! nat (fst loc))"
    by (simp add: cell_def)
  with row show ?thesis
    by auto
qed

lemma concat_update_subset:
  "set (concat (a[i := (a ! i)[j := v]])) \<subseteq> insert v (set (concat a))"
proof
  fix x
  assume "x \<in> set (concat (a[i := (a ! i)[j := v]]))"
  then obtain row where row: "row \<in> set (a[i := (a ! i)[j := v]])" and x: "x \<in> set row"
    by auto
  from row have "row = (a ! i)[j := v] \<or> row \<in> set a"
    using set_update_subset_insert [of a i "(a ! i)[j := v]"] by blast
  then show "x \<in> insert v (set (concat a))"
  proof
    assume e: "row = (a ! i)[j := v]"
    show ?thesis
    proof (cases "i < length a")
      case True
      then have "a ! i \<in> set a" by simp
      moreover from x e have "x = v \<or> x \<in> set (a ! i)"
        using set_update_subset_insert [of "a ! i" j v] by blast
      ultimately show ?thesis by auto
    next
      case False
      with row have "row \<in> set a" by (simp add: list_update_beyond)
      with x show ?thesis by auto
    qed
  next
    assume "row \<in> set a"
    with x show ?thesis by auto
  qed
qed

lemma setitem_values:
  "setitem a loc v = Inr a' \<Longrightarrow> set (concat a') \<subseteq> insert v (set (concat a))"
proof -
  assume "setitem a loc v = Inr a'"
  then have e: "setitem_intp a loc v = Inr a'"
    by (rule setitem_Inr)
  then obtain i where i: "norm_index (length a) (fst loc) = Inr i"
    by (cases "norm_index (length a) (fst loc)") (simp_all add: setitem_intp_def)
  with e obtain j where j: "norm_index (length (a ! i)) (snd loc) = Inr j"
    by (cases "norm_index (length (a ! i)) (snd loc)") (simp_all add: setitem_intp_def)
  from e i j have "a' = a[i := (a ! i)[j := v]]"
    by (simp add: setitem_intp_def)
  then show ?thesis
    using concat_update_subset [of a i j v] by simp
qed


lemma shaped_blank_arrays: "shaped (zeros rows cols)" "shaped (fill (zeros rows cols) v)"
  by (simp_all add: shaped_def zeros_def fill_def)

lemma shaped_assign_where:
  assumes "shaped t" and "shaped c"
  shows "shaped (assign_where p c v t)"
  unfolding shaped_def
proof (intro conjI ballI)
  show "length (assign_where p c v t) = rows"
    using assms by (simp add: assign_where_def shaped_def)
next
  fix row
  assume "row \<in> set (assign_where p c v t)"
  then obtain trow crow where z: "(trow, crow) \<in> set (zip t c)"
    and row: "row = map2 (\<lambda>x y. if p y then v else x) trow crow"
    by (auto simp: assign_where_def)
  from z have "trow \<in> set t" "crow \<in> set c"
    by (auto dest: set_zip_leftD set_zip_rightD)
  with assms row show "length row = cols"
    by (simp add: shaped_def)
qed

lemma cell_assign_where:
  assumes "shaped t" and "shaped c" and "in_bounds loc"
  shows "cell (assign_where p c v t) loc = (if p (cell c loc) then v else cell t loc)"
proof -
  have r: "nat (fst loc) < rows" and k: "nat (snd loc) < cols"
    using in_bounds_nat [OF assms(3)] by simp_all
  have lt: "length t = rows" and lc: "length c = rows"
    using assms by (simp_all add: shaped_def)
  have "t ! nat (fst loc) \<in> set t" "c ! nat (fst loc) \<in> set c"
    using r lt lc by simp_all
  then have lrow: "length (t ! nat (fst loc)) = cols" "length (c ! nat (fst loc)) = cols"
    using assms by (simp_all add: shaped_def)
  show ?thesis
    using r k lt lc lrow by (simp add: assign_where_def cell_def)
qed

lemma assign_where_values:
  "set (concat (assign_where p c v t)) \<subseteq> insert v (set (concat t))"
proof
  fix x
  assume "x \<in> set (concat (assign_where p c v t))"
  then obtain row where row: "row \<in> set (assign_where p c v t)" and x: "x \<in> set row"
    by auto
  from row obtain trow crow where z: "(trow, crow) \<in> set (zip t c)"
    and re: "row = map2 (\<lambda>x y. if p y then v else x) trow crow"
    by (auto simp: assign_where_def)
  from x re obtain a b where ab: "(a, b) \<in> set (zip trow crow)"
    and xe: "x = (if p b then v else a)"
    by auto
  from z have "trow \<in> set t" by (rule set_zip_leftD)
  moreover from ab have "a \<in> set trow" by (rule set_zip_leftD)
  ultimately have "a \<in> set (concat t)" by auto
  with xe show "x \<in> insert v (set (concat t))" by simp
qed

lemma well_formed_blank: "well_formed blank"
  by (simp add: well_formed_def blank_def shaped_blank_arrays) (simp add: zeros_def)

lemma lay_given_keeps:
  "lay_given locs s = Inr s' \<Longrightarrow> shaped (grid s) \<Longrightarrow>
   shaped (grid s') \<and> flagged s' = flagged s \<and> swept s' = swept s \<and>
   won s' = won s \<and> lost s' = lost s \<and> quit s' = quit s"
proof (induction locs arbitrary: s)
  case Nil
  then show ?case by simp
next
  case (Cons l locs)
  show ?case
  proof (cases "valid_location l")
    case (Inl e)
    with Cons.prems show ?thesis by simp
  next
    case (Inr b)
    show ?thesis
    proof (cases b)
      case False
      with Inr Cons.prems Cons.IH [of s] show ?thesis by simp
    next
      case True
      with Inr Cons.prems obtain g where g: "setitem_py (grid s) l mine = Inr g"
        and rest: "lay_given locs (s\<lparr>grid := g, number_of_mines := number_of_mines s + 1\<rparr>) = Inr s'"
        by (auto split: sum.splits)
      from g Cons.prems have "shaped g" by (simp add: setitem_py_shaped)
      with Cons.IH [OF rest] show ?thesis by simp
    qed
  qed
qed

lemma lay_sampled_shaped: "lay_sampled smp g = Inr g' \<Longrightarrow> shaped g \<Longrightarrow> shaped g'"
  by (induction smp arbitrary: g) (auto split: sum.splits dest: setitem_shaped)

lemma constructed_well_formed: "constructed s \<Longrightarrow> well_formed s"
proof (induction rule: constructed.induct)
  case (given sample locations s)
  then have "lay_given locations (blank\<lparr>number_of_mines := 0\<rparr>) = Inr s"
    by (simp add: init_def)
  from lay_given_keeps [OF this] well_formed_blank show ?case
    by (simp add: well_formed_def)
next
  case (random sample s)
  then obtain g where g: "lay_sampled sample (grid blank) = Inr g"
    and s: "s = blank\<lparr>number_of_mines := 10, grid := g\<rparr>"
    by (auto simp: init_def split: sum.splits)
  from lay_sampled_shaped [OF g] well_formed_blank s show ?case
    by (simp add: well_formed_def)
qed

lemma check_game_state_arrays:
  "grid (check_game_state s) = grid s" "flagged (check_game_state s) = flagged s"
  "swept (check_game_state s) = swept s" "quit (check_game_state s) = quit s"
  "number_of_mines (check_game_state s) = number_of_mines s"
  by (simp_all add: check_game_state_def)

lemma sweep_tile_Inr:
  assumes "sweep_tile s loc = Inr s'"
  obtains sw x v g where "setitem (swept s) loc 1 = Inr sw" and "getitem (grid s) loc = Inr x"
    and "if x = mine then v = exploded else sum_adjacent_mines (s\<lparr>swept := sw\<rparr>) loc = Inr v"
    and "setitem (grid s) loc v = Inr g" and "s' = check_game_state (s\<lparr>swept := sw, grid := g\<rparr>)"
proof -
  from assms obtain sw where sw: "setitem (swept s) loc 1 = Inr sw"
    by (cases "setitem (swept s) loc 1") (simp_all add: sweep_tile_def)
  from assms sw obtain x where x: "getitem (grid s) loc = Inr x"
    by (cases "getitem (grid s) loc") (simp_all add: sweep_tile_def)
  show thesis
  proof (cases "x = mine")
    case True
    with assms sw x obtain g where "setitem (grid s) loc exploded = Inr g"
      and "s' = check_game_state (s\<lparr>swept := sw, grid := g\<rparr>)"
      by (cases "setitem (grid s) loc exploded") (simp_all add: sweep_tile_def)
    with sw x True show thesis
      by (intro that [of sw x exploded g]) simp_all
  next
    case False
    with assms sw x obtain n where n: "sum_adjacent_mines (s\<lparr>swept := sw\<rparr>) loc = Inr n"
      by (cases "sum_adjacent_mines (s\<lparr>swept := sw\<rparr>) loc") (simp_all add: sweep_tile_def)
    with assms sw x False obtain g where "setitem (grid s) loc n = Inr g"
      and "s' = check_game_state (s\<lparr>swept := sw, grid := g\<rparr>)"
      by (cases "setitem (grid s) loc n") (simp_all add: sweep_tile_def)
    with sw x False n show thesis
      by (intro that [of sw x n g]) simp_all
  qed
qed

lemma sweep_tile_arrays:
  assumes "sweep_tile s loc = Inr s'"
  shows "flagged s' = flagged s" and "quit s' = quit s" and "number_of_mines s' = number_of_mines s"
    and "\<exists>v. setitem (swept s) loc 1 = Inr (swept s') \<and> setitem (grid s) loc v = Inr (grid s')"
proof -
  from assms obtain sw x v g where sw: "setitem (swept s) loc 1 = Inr sw"
    and g: "setitem (grid s) loc v = Inr g"
    and s': "s' = check_game_state (s\<lparr>swept := sw, grid := g\<rparr>)"
    by (rule sweep_tile_Inr)
  from s' show "flagged s' = flagged s" "quit s' = quit s" "number_of_mines s' = number_of_mines s"
    by (simp_all add: check_game_state_arrays)
  from s' sw g show "\<exists>v. setitem (swept s) loc 1 = Inr (swept s') \<and> setitem (grid s) loc v = Inr (grid s')"
    by (auto simp: check_game_state_arrays)
qed

lemma sweep_tile_well_formed:
  assumes "sweep_tile s loc = Inr s'" and "well_formed s"
  shows "well_formed s'"
proof -
  from sweep_tile_arrays(4) [OF assms(1)] obtain v where
    sw: "setitem (swept s) loc 1 = Inr (swept s')" and g: "setitem (grid s) loc v = Inr (grid s')"
    by blast
  have "shaped (swept s')"
    using setitem_shaped [OF _ sw] assms(2) by (simp add: well_formed_def)
  moreover have "shaped (grid s')"
    using setitem_shaped [OF _ g] assms(2) by (simp add: well_formed_def)
  ultimately show ?thesis
    using assms(2) sweep_tile_arrays(1) [OF assms(1)] by (simp add: well_formed_def)
qed

lemma flag_tile_Inr:
  assumes "flag_tile s loc = Inr s'"
  obtains x f where "getitem (flagged s) loc = Inr x"
    and "setitem (flagged s) loc (if x = 0 then 1 else 0) = Inr f" and "s' = s\<lparr>flagged := f\<rparr>"
proof -
  from assms obtain x where x: "getitem (flagged s) loc = Inr x"
    by (cases "getitem (flagged s) loc") (simp_all add: flag_tile_def)
  with assms obtain f where "setitem (flagged s) loc (if x = 0 then 1 else 0) = Inr f"
    and "s' = s\<lparr>flagged := f\<rparr>"
    by (cases "setitem (flagged s) loc (if x = 0 then 1 else 0)") (simp_all add: flag_tile_def)
  with x show thesis
    by (rule that)
qed

lemma flag_tile_arrays:
  assumes "flag_tile s loc = Inr s'"
  shows "grid s' = grid s" and "swept s' = swept s" and "won s' = won s" and "lost s' = lost s"
    and "quit s' = quit s" and "number_of_mines s' = number_of_mines s"
    and "\<exists>x. getitem (flagged s) loc = Inr x \<and>
             setitem (flagged s) loc (if x = 0 then 1 else 0) = Inr (flagged s')"
proof -
  from assms obtain x f where x: "getitem (flagged s) loc = Inr x"
    and f: "setitem (flagged s) loc (if x = 0 then 1 else 0) = Inr f"
    and s': "s' = s\<lparr>flagged := f\<rparr>"
    by (rule flag_tile_Inr)
  from s' show "grid s' = grid s" "swept s' = swept s" "won s' = won s" "lost s' = lost s"
    "quit s' = quit s" "number_of_mines s' = number_of_mines s"
    by simp_all
  from x f s' show "\<exists>x. getitem (flagged s) loc = Inr x \<and>
             setitem (flagged s) loc (if x = 0 then 1 else 0) = Inr (flagged s')"
    by auto
qed

lemma flag_tile_well_formed:
  assumes "flag_tile s loc = Inr s'" and "well_formed s"
  shows "well_formed s'"
proof -
  from flag_tile_arrays(7) [OF assms(1)] obtain x where
    f: "setitem (flagged s) loc (if x = (0::int) then 1 else 0) = Inr (flagged s')"
    by blast
  from setitem_values [OF f] assms(2)
  have "\<forall>y \<in> set (concat (flagged s')). y = 0 \<or> y = 1"
    by (auto simp: well_formed_def split: if_splits)
  moreover have "shaped (flagged s')"
    using setitem_shaped [OF _ f] assms(2) by (simp add: well_formed_def)
  ultimately show ?thesis
    using flag_tile_arrays(1,2) [OF assms(1)] assms(2) by (simp add: well_formed_def)
qed

lemma clear_swept_flags_well_formed:
  assumes "well_formed s"
  shows "well_formed (clear_swept_flags s)"
proof -
  let ?f = "assign_where (\<lambda>x. x \<noteq> 0) (swept s) 0 (flagged s)"
  have "shaped ?f"
    using assms by (simp add: well_formed_def shaped_assign_where)
  moreover have "\<forall>y \<in> set (concat ?f). y = 0 \<or> y = 1"
    using assign_where_values [of "\<lambda>x. x \<noteq> 0" "swept s" 0 "flagged s"] assms
    unfolding well_formed_def by blast
  ultimately show ?thesis
    using assms by (simp add: well_formed_def clear_swept_flags_def)
qed

lemma reaches_well_formed: "reaches may_sweep s0 s \<Longrightarrow> well_formed s0 \<Longrightarrow> well_formed s"
proof (induction rule: reaches.induct)
  case start
  then show ?case by simp
next
  case (sweep s location s')
  then show ?case by (simp add: sweep_tile_well_formed)
next
  case (flag s location s')
  then show ?case by (simp add: flag_tile_well_formed)
next
  case (clear s)
  then show ?case by (simp add: clear_swept_flags_well_formed)
next
  case (exit s)
  then show ?case by (simp add: well_formed_def exit_game_def)
qed

subsection \<open>Counting adjacent mines\<close>

lemma count_adjacent_eq:
  "shaped g \<Longrightarrow>
   count_adjacent g ls acc =
     Inr (acc + int (length (filter (\<lambda>n. in_bounds n \<and> cell g n = mine) ls)))"
proof (induction ls arbitrary: acc)
  case Nil
  then show ?case by simp
next
  case (Cons l ls)
  show ?case
  proof (cases "in_bounds l")
    case True
    with Cons show ?thesis
      by (simp add: valid_location_tuple2 getitem_in_bounds)
  next
    case False
    with Cons show ?thesis
      by (simp add: valid_location_tuple2)
  qed
qed

lemma distinct_adjacent: "distinct (adjacent_locations loc)"
  by (simp add: adjacent_locations_def Let_def)

lemma length_adjacent: "length (adjacent_locations loc) = 8"
  by (simp add: adjacent_locations_def Let_def)

lemma set_adjacent:
  "set (adjacent_locations loc) =
     {n. n \<noteq> loc \<and> \<bar>fst n - fst loc\<bar> \<le> 1 \<and> \<bar>snd n - snd loc\<bar> \<le> 1}"
proof (intro set_eqI iffI)
  fix n
  assume "n \<in> set (adjacent_locations loc)"
  then show "n \<in> {n. n \<noteq> loc \<and> \<bar>fst n - fst loc\<bar> \<le> 1 \<and> \<bar>snd n - snd loc\<bar> \<le> 1}"
    by (cases loc) (auto simp: adjacent_locations_def Let_def)
next
  fix n
  assume "n \<in> {n. n \<noteq> loc \<and> \<bar>fst n - fst loc\<bar> \<le> 1 \<and> \<bar>snd n - snd loc\<bar> \<le> 1}"
  then have ne: "n \<noteq> loc" and r: "\<bar>fst n - fst loc\<bar> \<le> 1" and c: "\<bar>snd n - snd loc\<bar> \<le> 1"
    by simp_all
  from r have r': "fst n = fst loc - 1 \<or> fst n = fst loc \<or> fst n = fst loc + 1"
    by arith
  from c have c': "snd n = snd loc - 1 \<or> snd n = snd loc \<or> snd n = snd loc + 1"
    by arith
  from ne have "fst n \<noteq> fst loc \<or> snd n \<noteq> snd loc"
    by (simp add: prod_eq_iff)
  with r' c' have
    "n = (fst loc + 1, snd loc) \<or> n = (fst loc - 1, snd loc) \<or> n = (fst loc, snd loc + 1) \<or>
     n = (fst loc, snd loc - 1) \<or> n = (fst loc + 1, snd loc + 1) \<or>
     n = (fst loc + 1, snd loc - 1) \<or> n = (fst loc - 1, snd loc + 1) \<or>
     n = (fst loc - 1, snd loc - 1)"
    by (cases n) auto
  then show "n \<in> set (adjacent_locations loc)"
    by (simp add: adjacent_locations_def Let_def)
qed

lemma adjacent_mines_eq:
  "adjacent_mines g loc =
     length (filter (\<lambda>n. in_bounds n \<and> cell g n = mine) (adjacent_locations loc))"
proof -
  have "{n \<in> neighbours loc. cell g n = mine} =
        set (filter (\<lambda>n. in_bounds n \<and> cell g n = mine) (adjacent_locations loc))"
    by (auto simp: neighbours_def set_adjacent)
  moreover have "card (set (filter (\<lambda>n. in_bounds n \<and> cell g n = mine) (adjacent_locations loc))) =
        length (filter (\<lambda>n. in_bounds n \<and> cell g n = mine) (adjacent_locations loc))"
    by (rule distinct_card) (simp add: distinct_adjacent)
  ultimately show ?thesis
    by (simp only: adjacent_mines_def)
qed

lemma adjacent_mines_le: "adjacent_mines g loc \<le> 8"
proof -
  have "length (filter (\<lambda>n. in_bounds n \<and> cell g n = mine) (adjacent_locations loc))
        \<le> length (adjacent_locations loc)"
    by (rule length_filter_le)
  then show ?thesis
    by (simp add: adjacent_mines_eq length_adjacent)
qed

lemma sum_adjacent_mines_eq:
  "shaped (grid s) \<Longrightarrow> sum_adjacent_mines s loc = Inr (int (adjacent_mines (grid s) loc))"
  by (simp add: sum_adjacent_mines_def count_adjacent_eq adjacent_mines_eq)

lemma sweep_tile_in_bounds:
  assumes "well_formed s" and "in_bounds loc"
  shows "sweep_tile s loc =
     Inr (check_game_state
       (s\<lparr>swept := replaced (swept s) loc 1,
          grid := replaced (grid s) loc
            (if cell (grid s) loc = mine then exploded
             else int (adjacent_mines (grid s) loc))\<rparr>))"
proof -
  have g: "shaped (grid s)" and w: "shaped (swept s)"
    using assms(1) by (simp_all add: well_formed_def)
  show ?thesis
    using assms(2)
    by (simp add: sweep_tile_def setitem_in_bounds [OF w] setitem_in_bounds [OF g]
        getitem_in_bounds [OF g] sum_adjacent_mines_eq [of "s\<lparr>swept := replaced (swept s) loc 1\<rparr>"] g)
qed

subsection \<open>The boards of the examples\<close>

lemma test_board_init:
  "init [] (Some [tuple2 (1, 6), tuple2 (3, 1), tuple2 (5, 1)]) = Inr test_board"
proof -
  have "\<not> isl (init [] (Some [tuple2 (1, 6), tuple2 (3, 1), tuple2 (5, 1)]))"
    by code_simp
  then show ?thesis
    by (simp add: test_board_def)
qed

lemma test_board_constructed: "constructed test_board"
  using test_board_init by (rule constructed.given)

lemma blank_constructed: "constructed blank"
  using init_empty [of "[]"] by (rule constructed.given)

subsection \<open>Indexing the board\<close>

lemma norm_index_wrap:
  assumes "- int n \<le> i" and "i < int n"
  shows "norm_index n i = Inr (nat (i mod int n))"
proof (cases "i < 0")
  case True
  from assms have "0 \<le> i + int n" and "i + int n < int n"
    using True by simp_all
  then have "(i + int n) mod int n = i + int n"
    by (rule mod_pos_pos_trivial)
  then have "i mod int n = i + int n"
    by simp
  with assms True show ?thesis
    by (simp add: norm_index_def)
next
  case False
  with assms have "0 \<le> i" and "i < int n"
    by simp_all
  then have "i mod int n = i"
    by (rule mod_pos_pos_trivial)
  with assms False show ?thesis
    by (simp add: norm_index_def)
qed

lemma norm_index_out: "\<not> (- int n \<le> i \<and> i < int n) \<Longrightarrow> norm_index n i = Inl IndexError"
  by (simp add: norm_index_def)

lemma indexable_wrapped: "in_bounds (wrapped loc)"
  by (simp add: in_bounds_def wrapped_def rows_def cols_def)

lemma getitem_intp_indexable:
  assumes "shaped a"
  shows "getitem_intp a loc = (if indexable loc then Inr (cell a (wrapped loc)) else Inl IndexError)"
proof (cases "- int rows \<le> fst loc \<and> fst loc < int rows")
  case False
  then show ?thesis
    using assms by (auto simp add: getitem_intp_def norm_index_out shaped_def indexable_def)
next
  case True
  then have r: "norm_index (length a) (fst loc) = Inr (nat (fst loc mod int rows))"
    using assms by (simp add: norm_index_wrap shaped_def)
  have "nat (fst loc mod int rows) < rows"
    using in_bounds_nat [OF indexable_wrapped [of loc]] by (simp add: wrapped_def)
  then have len: "length (a ! nat (fst loc mod int rows)) = cols"
    using assms by (simp add: shaped_def)
  show ?thesis
  proof (cases "- int cols \<le> snd loc \<and> snd loc < int cols")
    case False
    then show ?thesis
      using True r len by (simp add: getitem_intp_def norm_index_out indexable_def)
  next
    case c: True
    then show ?thesis
      using True r len
      by (simp add: getitem_intp_def norm_index_wrap indexable_def cell_def wrapped_def)
  qed
qed

lemma setitem_intp_indexable:
  assumes "shaped a"
  shows "setitem_intp a loc v =
     (if indexable loc then Inr (replaced a (wrapped loc) v) else Inl IndexError)"
proof (cases "- int rows \<le> fst loc \<and> fst loc < int rows")
  case False
  then show ?thesis
    using assms by (auto simp add: setitem_intp_def norm_index_out shaped_def indexable_def)
next
  case True
  then have r: "norm_index (length a) (fst loc) = Inr (nat (fst loc mod int rows))"
    using assms by (simp add: norm_index_wrap shaped_def)
  have "nat (fst loc mod int rows) < rows"
    using in_bounds_nat [OF indexable_wrapped [of loc]] by (simp add: wrapped_def)
  then have len: "length (a ! nat (fst loc mod int rows)) = cols"
    using assms by (simp add: shaped_def)
  show ?thesis
  proof (cases "- int cols \<le> snd loc \<and> snd loc < int cols")
    case False
    then show ?thesis
      using True r len by (simp add: setitem_intp_def norm_index_out indexable_def)
  next
    case c: True
    then show ?thesis
      using True r len
      by (simp add: setitem_intp_def norm_index_wrap indexable_def replaced_def wrapped_def)
  qed
qed

lemma as_index_eq:
  "as_index loc =
     (if uint64_only (fst loc) then Inl OverflowError
      else if \<not> int64 (fst loc) then Inl IndexError
      else if uint64_only (snd loc) then Inl OverflowError
      else if \<not> int64 (snd loc) then Inl IndexError
      else Inr loc)"
  by (auto simp: as_index_def as_intp_def int64_def uint64_only_def)

lemma as_index_exception:
  "as_index loc = (if int64 (fst loc) \<and> int64 (snd loc) then Inr loc else Inl (index_exception loc))"
  unfolding as_index_eq index_exception_def
  by (auto simp: int64_def uint64_only_def)

lemma indexable_int64: "indexable loc \<Longrightarrow> int64 (fst loc) \<and> int64 (snd loc)"
  by (simp add: indexable_def int64_def rows_def cols_def)

lemma index_exception_int64:
  "int64 (fst loc) \<Longrightarrow> int64 (snd loc) \<Longrightarrow> index_exception loc = IndexError"
  by (simp add: index_exception_def int64_def uint64_only_def)

lemma getitem_indexable:
  assumes "shaped a"
  shows "getitem a loc =
     (if indexable loc then Inr (cell a (wrapped loc)) else Inl (index_exception loc))"
proof (cases "int64 (fst loc) \<and> int64 (snd loc)")
  case True
  then show ?thesis
    by (simp add: getitem_def as_index_exception getitem_intp_indexable [OF assms]
        index_exception_int64)
next
  case False
  with indexable_int64 [of loc] have "\<not> indexable loc"
    by blast
  with False show ?thesis
    by (auto simp add: getitem_def as_index_exception)
qed

lemma setitem_indexable:
  assumes "shaped a"
  shows "setitem a loc v =
     (if indexable loc then Inr (replaced a (wrapped loc) v) else Inl (index_exception loc))"
proof (cases "int64 (fst loc) \<and> int64 (snd loc)")
  case True
  then show ?thesis
    by (simp add: setitem_def as_index_exception setitem_intp_indexable [OF assms]
        index_exception_int64)
next
  case False
  with indexable_int64 [of loc] have "\<not> indexable loc"
    by blast
  with False show ?thesis
    by (auto simp add: setitem_def as_index_exception)
qed

lemma flag_tile_eq:
  assumes "well_formed s"
  shows "flag_tile s loc =
     (if indexable loc then Inr (toggled s (wrapped loc)) else Inl (index_exception loc))"
proof -
  have f: "shaped (flagged s)"
    using assms by (simp add: well_formed_def)
  show ?thesis
    by (simp add: flag_tile_def getitem_indexable [OF f] setitem_indexable [OF f] toggled_def)
qed

lemma wrapped_in_bounds: "in_bounds loc \<Longrightarrow> wrapped loc = loc \<and> indexable loc"
  by (cases loc) (simp add: in_bounds_def wrapped_def indexable_def)

lemma flag_cell: "well_formed s \<Longrightarrow> in_bounds loc \<Longrightarrow> cell (flagged s) loc = 0 \<or> cell (flagged s) loc = 1"
  using cell_in_concat [of "flagged s" loc] unfolding well_formed_def by blast

lemma toggled_twice:
  assumes "well_formed s" and "in_bounds loc"
  shows "toggled (toggled s loc) loc = s"
proof -
  have f: "shaped (flagged s)"
    using assms by (simp add: well_formed_def)
  have "(if (if cell (flagged s) loc = 0 then 1 else 0) = (0::int) then 1 else 0) = cell (flagged s) loc"
    using flag_cell [OF assms] by auto
  then show ?thesis
    by (simp add: toggled_def cell_replaced_same [OF f assms(2)] replaced_twice replaced_cell)
qed

text \<open>Every state of a game, however it was constructed and played, is well formed.\<close>

lemma engine_well_formed:
  assumes "constructed s0" and "reaches may_sweep s0 s"
  shows "well_formed s"
  using assms(2) constructed_well_formed [OF assms(1)] by (rule reaches_well_formed)

subsection \<open>Sweeping a tile\<close>

text \<open>
  C3. In every state of a game and for every valid location, \<open>sweep_tile\<close> returns; it
  marks the tile swept, turns a mine into a detonated mine and writes into any other tile the
  number of its neighbours (the valid locations among the eight around it) that hold an
  undetonated mine, a number from 0 to 8; then the outcome is evaluated again on the new
  grid: \<open>lost\<close> is set when a tile holds a detonated mine, \<open>won\<close> is set when no tile holds
  a detonated mine and none is unexplored, and a flag that was set stays set. Nothing
  else changes.
\<close>

theorem sweep_tile_effect:
  assumes "constructed s0" and "reaches any_sweep s0 s" and "in_bounds location"
  shows "sweep_tile s location =
     Inr (s\<lparr>won := won s \<or> (\<not> holds (swept_grid (grid s) location) exploded \<and>
                                \<not> holds (swept_grid (grid s) location) unexplored),
            lost := lost s \<or> holds (swept_grid (grid s) location) exploded,
            grid := swept_grid (grid s) location,
            swept := replaced (swept s) location 1\<rparr>) \<and>
     cell (replaced (swept s) location 1) location = 1 \<and>
     cell (swept_grid (grid s) location) location =
       (if cell (grid s) location = mine then exploded
        else int (adjacent_mines (grid s) location)) \<and>
     adjacent_mines (grid s) location \<le> 8"
proof -
  have wf: "well_formed s"
    using assms(1,2) by (rule engine_well_formed)
  then have g: "shaped (grid s)" and w: "shaped (swept s)"
    by (simp_all add: well_formed_def)
  let ?g = "swept_grid (grid s) location"
  let ?s = "s\<lparr>swept := replaced (swept s) location 1, grid := ?g\<rparr>"
  have "sweep_tile s location = Inr (check_game_state ?s)"
    using sweep_tile_in_bounds [OF wf assms(3)] by (simp add: swept_grid_def)
  moreover have "check_game_state ?s =
      s\<lparr>won := won s \<or> (\<not> holds ?g exploded \<and> \<not> holds ?g unexplored),
        lost := lost s \<or> holds ?g exploded, grid := ?g,
        swept := replaced (swept s) location 1\<rparr>"
    by (rule MineClicker.equality) (auto simp add: check_game_state_def holds_iff)
  moreover have "cell (replaced (swept s) location 1) location = 1"
    using w assms(3) by (rule cell_replaced_same)
  moreover have "cell ?g location =
       (if cell (grid s) location = mine then exploded
        else int (adjacent_mines (grid s) location))"
    unfolding swept_grid_def using g assms(3) by (rule cell_replaced_same)
  ultimately show ?thesis
    using adjacent_mines_le [of "grid s" location] by simp
qed

text \<open>
  The tile (4, 1) of the test board lies between the mines at (3, 1) and (5, 1): the sweep
  writes 2, and the game is neither won nor lost.
\<close>

theorem sweep_tile_effect_witness:
  "constructed test_board \<and> reaches any_sweep test_board test_board \<and> in_bounds (4, 1) \<and>
   sweep_tile test_board (4, 1) =
     Inr (test_board\<lparr>grid := replaced (grid test_board) (4, 1) 2,
            swept := replaced (swept test_board) (4, 1) 1\<rparr>) \<and>
   \<not> won test_board \<and> \<not> lost test_board"
proof -
  have b: "in_bounds (4, 1)"
    by (simp add: in_bounds_def rows_def cols_def)
  have c: "cell (grid test_board) (4, 1) \<noteq> mine"
    by code_simp
  have n: "adjacent_mines (grid test_board) (4, 1) = 2"
    unfolding adjacent_mines_eq by code_simp
  have g: "swept_grid (grid test_board) (4, 1) = replaced (grid test_board) (4, 1) 2"
    using c n by (simp add: swept_grid_def)
  have h: "\<not> holds (replaced (grid test_board) (4, 1) 2) exploded"
    "holds (replaced (grid test_board) (4, 1) 2) unexplored"
    unfolding holds_iff by code_simp+
  have f: "\<not> won test_board" "\<not> lost test_board"
    by code_simp+
  show ?thesis
    using sweep_tile_effect [OF test_board_constructed reaches.start b] test_board_constructed
      reaches.start [of any_sweep test_board] b g h f
    by simp
qed

subsection \<open>The view of the player\<close>

text \<open>
  C7. In every state of a game \<open>player_view\<close> returns an array of the shape of the board
  whose cell at a valid location is the flag marker when the tile is flagged, \<^verbatim>\<open>nan\<close> when it
  is not flagged and holds a mine or is unexplored, and the value of the grid otherwise; the
  game itself is left as it is.
\<close>

theorem player_view_cells:
  assumes "constructed s0" and "reaches any_sweep s0 s" and "in_bounds location"
  shows "cell (fst (player_view s)) location =
       (if cell (flagged s) location = 1 then Some flag
        else if cell (grid s) location = mine \<or> cell (grid s) location = unexplored then None
        else Some (cell (grid s) location)) \<and>
     (cell (flagged s) location = 0 \<or> cell (flagged s) location = 1) \<and>
     shaped (fst (player_view s)) \<and> snd (player_view s) = s"
proof -
  have wf: "well_formed s"
    using assms(1,2) by (rule engine_well_formed)
  then have g: "shaped (grid s)" and f: "shaped (flagged s)"
    by (simp_all add: well_formed_def)
  let ?v0 = "map (map Some) (grid s)"
  let ?v1 = "assign_where (\<lambda>x. x = mine) (grid s) None ?v0"
  let ?v2 = "assign_where (\<lambda>x. x = unexplored) (grid s) None ?v1"
  let ?v3 = "assign_where (\<lambda>x. x = 1) (flagged s) (Some flag) ?v2"
  have s0: "shaped ?v0"
    using g by (simp add: shaped_def)
  have c0: "cell ?v0 location = Some (cell (grid s) location)"
    using g in_bounds_nat [OF assms(3)] by (simp add: cell_def shaped_def)
  have s1: "shaped ?v1"
    using s0 g by (rule shaped_assign_where)
  have s2: "shaped ?v2"
    using s1 g by (rule shaped_assign_where)
  have s3: "shaped ?v3"
    using s2 f by (rule shaped_assign_where)
  have v: "player_view s = (?v3, s)"
    by (simp add: player_view_def)
  have "cell ?v3 location =
       (if cell (flagged s) location = 1 then Some flag
        else if cell (grid s) location = mine \<or> cell (grid s) location = unexplored then None
        else Some (cell (grid s) location))"
    by (simp add: cell_assign_where [OF s2 f assms(3)] cell_assign_where [OF s1 g assms(3)]
        cell_assign_where [OF s0 g assms(3)] c0)
  with s3 v flag_cell [OF wf assms(3)] show ?thesis
    by simp
qed

text \<open>On the test board the mine at (1, 6) and the unexplored tile (0, 0) are both masked.\<close>

theorem player_view_cells_witness:
  "constructed test_board \<and> reaches any_sweep test_board test_board \<and>
   in_bounds (1, 6) \<and> in_bounds (0, 0) \<and>
   cell (grid test_board) (1, 6) = mine \<and> cell (fst (player_view test_board)) (1, 6) = None \<and>
   cell (grid test_board) (0, 0) = unexplored \<and> cell (fst (player_view test_board)) (0, 0) = None \<and>
   snd (player_view test_board) = test_board"
proof -
  have b: "in_bounds (1, 6)" "in_bounds (0, 0)"
    by (simp_all add: in_bounds_def rows_def cols_def)
  have c: "cell (grid test_board) (1, 6) = mine" "cell (grid test_board) (0, 0) = unexplored"
    "cell (flagged test_board) (1, 6) = 0" "cell (flagged test_board) (0, 0) = 0"
    by code_simp+
  show ?thesis
    using player_view_cells [OF test_board_constructed reaches.start b(1)]
      player_view_cells [OF test_board_constructed reaches.start b(2)]
      test_board_constructed reaches.start [of any_sweep test_board] b c
    by simp
qed

subsection \<open>Flagging a tile\<close>

text \<open>
  C9. The claim: \<open>flag_tile\<close> raises for every invalid location. \<open>flag_tile\<close> checks
  nothing itself; the exception is the one of the array index. The location (-1, -1) is
  invalid, and numpy reads it as the last tile of the board: the call returns with the flag
  of tile (7, 7) set.
\<close>

theorem flag_tile_negative_index:
  "init [] (Some []) = Inr blank \<and> \<not> in_bounds (- 1, - 1) \<and>
   flag_tile blank (- 1, - 1) = Inr (blank\<lparr>flagged := replaced (flagged blank) (7, 7) 1\<rparr>) \<and>
   cell (replaced (flagged blank) (7, 7) 1) (7, 7) = 1"
proof -
  have b: "in_bounds (7, 7)"
    by (simp add: in_bounds_def rows_def cols_def)
  have c: "cell (replaced (flagged blank) (7, 7) 1) (7, 7) = 1"
    using well_formed_blank b by (simp add: cell_replaced_same well_formed_def)
  have "flag_tile blank (- 1, - 1) = Inr (toggled blank (wrapped (- 1, - 1)))"
    by (simp add: flag_tile_eq [OF well_formed_blank] indexable_def rows_def cols_def)
  moreover have "wrapped (- 1, - 1) = (7, 7)"
    by (simp add: wrapped_def rows_def cols_def)
  moreover have "cell (flagged blank) (7, 7) = 0"
    by code_simp
  ultimately show ?thesis
    using c init_empty [of "[]"] by (simp add: toggled_def in_bounds_def)
qed

text \<open>
  C9, as the code has it: \<open>flag_tile\<close> raises, and changes nothing, exactly for the
  locations with a row outside \<open>[-rows, rows)\<close> or a column outside \<open>[-cols, cols)\<close>. The
  exception is \<^verbatim>\<open>IndexError\<close>, but \<^verbatim>\<open>OverflowError\<close> when the first coordinate outside the
  signed 64-bit range lies between \<open>2^63\<close> and \<open>2^64 - 1\<close>. For every other location it
  flips the flag of the tile the index stands for, a negative index counting from the end.
\<close>

theorem flag_tile_index:
  assumes "constructed s0" and "reaches any_sweep s0 s"
  shows "flag_tile s location =
     (if indexable location then Inr (toggled s (wrapped location))
      else Inl (index_exception location))"
  using engine_well_formed [OF assms] by (rule flag_tile_eq)

text \<open>
  The call of the test-suite, (8, 8), raises \<^verbatim>\<open>IndexError\<close>, and so does \<open>(2^64, 0)\<close>;
  \<open>(2^63, 0)\<close> raises \<^verbatim>\<open>OverflowError\<close>; (-1, -1) does not raise.
\<close>

theorem flag_tile_index_witness:
  "constructed blank \<and> reaches any_sweep blank blank \<and>
   \<not> indexable (8, 8) \<and> flag_tile blank (8, 8) = Inl IndexError \<and>
   \<not> indexable (2 ^ 64, 0) \<and> flag_tile blank (2 ^ 64, 0) = Inl IndexError \<and>
   \<not> indexable (2 ^ 63, 0) \<and> flag_tile blank (2 ^ 63, 0) = Inl OverflowError \<and>
   indexable (- 1, - 1) \<and> flag_tile blank (- 1, - 1) = Inr (toggled blank (7, 7))"
proof -
  have i: "\<not> indexable (8, 8)" "\<not> indexable (2 ^ 64, 0)" "\<not> indexable (2 ^ 63, 0)"
    "indexable (- 1, - 1)" "wrapped (- 1, - 1) = (7, 7)"
    by (simp_all add: indexable_def wrapped_def rows_def cols_def)
  have e: "index_exception (8, 8) = IndexError" "index_exception (2 ^ 64, 0) = IndexError"
    "index_exception (2 ^ 63, 0) = OverflowError"
    by (simp_all add: index_exception_def int64_def uint64_only_def)
  show ?thesis
    using flag_tile_index [OF blank_constructed reaches.start, of "(8, 8)"]
      flag_tile_index [OF blank_constructed reaches.start, of "(2 ^ 64, 0)"]
      flag_tile_index [OF blank_constructed reaches.start, of "(2 ^ 63, 0)"]
      flag_tile_index [OF blank_constructed reaches.start, of "(- 1, - 1)"]
      blank_constructed reaches.start [of any_sweep blank] i e
    by simp
qed

text \<open>
  C10. In every state of a game and for every valid location, two calls of \<open>flag_tile\<close> at
  the location give the state back: the first flips the flag of the tile and nothing else,
  the second flips it back.
\<close>

theorem flag_tile_twice:
  assumes "constructed s0" and "reaches any_sweep s0 s" and "in_bounds location"
  shows "flag_tile s location = Inr (toggled s location) \<and>
     flag_tile (toggled s location) location = Inr s \<and>
     grid (toggled s location) = grid s \<and> swept (toggled s location) = swept s \<and>
     won (toggled s location) = won s \<and> lost (toggled s location) = lost s \<and>
     quit (toggled s location) = quit s"
proof -
  have wf: "well_formed s"
    using assms(1,2) by (rule engine_well_formed)
  have one: "flag_tile s location = Inr (toggled s location)"
    using wrapped_in_bounds [OF assms(3)] by (simp add: flag_tile_eq [OF wf])
  then have wf': "well_formed (toggled s location)"
    using wf by (rule flag_tile_well_formed)
  have "flag_tile (toggled s location) location = Inr (toggled (toggled s location) location)"
    using wrapped_in_bounds [OF assms(3)] by (simp add: flag_tile_eq [OF wf'])
  with one toggled_twice [OF wf assms(3)] show ?thesis
    by (simp add: toggled_def)
qed

text \<open>Flagging (1, 2) on the test board, twice.\<close>

theorem flag_tile_twice_witness:
  "constructed test_board \<and> reaches any_sweep test_board test_board \<and> in_bounds (1, 2) \<and>
   flag_tile test_board (1, 2) = Inr (toggled test_board (1, 2)) \<and>
   flag_tile (toggled test_board (1, 2)) (1, 2) = Inr test_board"
proof -
  have b: "in_bounds (1, 2)"
    by (simp add: in_bounds_def rows_def cols_def)
  show ?thesis
    using flag_tile_twice [OF test_board_constructed reaches.start b] test_board_constructed
      reaches.start [of any_sweep test_board] b
    by simp
qed

subsection \<open>Flags of swept tiles\<close>

lemma clear_swept_flags_cell:
  assumes "well_formed s" and "in_bounds l"
  shows "cell (flagged (clear_swept_flags s)) l = (if cell (swept s) l \<noteq> 0 then 0 else cell (flagged s) l)"
proof -
  have "shaped (flagged s)" and "shaped (swept s)"
    using assms(1) by (simp_all add: well_formed_def)
  then show ?thesis
    using assms(2) by (simp add: clear_swept_flags_def cell_assign_where)
qed

text \<open>
  C6. A sweep is \<open>sweep_tile\<close> with the clearing pass that follows it. In every state of a
  game and for every valid location the sweep returns, and after it no swept tile is flagged:
  \<open>sweep_tile\<close> marks the tile swept and leaves the flags as they are, and
  \<open>clear_swept_flags\<close> clears the flag of every swept tile and keeps the others.
\<close>

theorem sweep_clears_flags:
  assumes "constructed s0" and "reaches any_sweep s0 s" and "in_bounds location"
  shows "\<not> isl (sweep_action s location) \<and>
     swept_and_flagged (projr (sweep_action s location)) = {} \<and>
     cell (swept (projr (sweep_action s location))) location = 1 \<and>
     cell (flagged (projr (sweep_action s location))) location = 0 \<and>
     flagged (projr (sweep_tile s location)) = flagged s \<and>
     (\<forall>l. in_bounds l \<longrightarrow>
        cell (flagged (projr (sweep_action s location))) l =
          (if cell (swept (projr (sweep_action s location))) l \<noteq> 0 then 0
           else cell (flagged s) l))"
proof -
  have wf: "well_formed s"
    using assms(1,2) by (rule engine_well_formed)
  obtain s' where s': "sweep_tile s location = Inr s'"
    using sweep_tile_in_bounds [OF wf assms(3)] by blast
  with wf have wf': "well_formed s'"
    by (rule sweep_tile_well_formed [rotated])
  have a: "sweep_action s location = Inr (clear_swept_flags s')"
    using s' by (simp add: sweep_action_def)
  have k: "swept (clear_swept_flags s') = swept s'"
    by (simp add: clear_swept_flags_def)
  have f: "flagged s' = flagged s"
    using s' by (rule sweep_tile_arrays(1))
  have c: "\<forall>l. in_bounds l \<longrightarrow>
        cell (flagged (clear_swept_flags s')) l =
          (if cell (swept s') l \<noteq> 0 then 0 else cell (flagged s) l)"
    using clear_swept_flags_cell [OF wf'] f by simp
  have e: "swept_and_flagged (clear_swept_flags s') = {}"
    using c k by (auto simp: swept_and_flagged_def)
  have "swept s' = replaced (swept s) location 1"
    using s' sweep_tile_in_bounds [OF wf assms(3)] by (auto simp: check_game_state_arrays)
  then have w: "cell (swept s') location = 1"
    using wf assms(3) by (simp add: cell_replaced_same well_formed_def)
  with c [rule_format, OF assms(3)] have z: "cell (flagged (clear_swept_flags s')) location = 0"
    by simp
  from a s' k f c e w z show ?thesis
    by simp
qed

text \<open>The tile (2, 1), flagged and then swept, as in the test-suite.\<close>

theorem sweep_clears_flags_witness:
  "constructed blank \<and> reaches any_sweep blank (toggled blank (2, 1)) \<and> in_bounds (2, 1) \<and>
   cell (flagged (toggled blank (2, 1))) (2, 1) = 1 \<and>
   \<not> isl (sweep_action (toggled blank (2, 1)) (2, 1)) \<and>
   swept_and_flagged (projr (sweep_action (toggled blank (2, 1)) (2, 1))) = {} \<and>
   cell (flagged (projr (sweep_action (toggled blank (2, 1)) (2, 1)))) (2, 1) = 0"
proof -
  have b: "in_bounds (2, 1)"
    by (simp add: in_bounds_def rows_def cols_def)
  have "flag_tile blank (2, 1) = Inr (toggled blank (2, 1))"
    using wrapped_in_bounds [OF b] by (simp add: flag_tile_eq [OF well_formed_blank])
  with reaches.start have r: "reaches any_sweep blank (toggled blank (2, 1))"
    by (rule reaches.flag)
  have f: "cell (flagged (toggled blank (2, 1))) (2, 1) = 1"
    by code_simp
  show ?thesis
    using sweep_clears_flags [OF blank_constructed r b] blank_constructed r b f
    by simp
qed

subsection \<open>The flags of the outcome\<close>

lemma constructed_flags: "constructed s \<Longrightarrow> \<not> won s \<and> \<not> lost s"
proof (induction rule: constructed.induct)
  case (given sample locations s)
  then have "lay_given locations (blank\<lparr>number_of_mines := 0\<rparr>) = Inr s"
    by (simp add: init_def)
  from lay_given_keeps [OF this] show ?case
    by (simp add: blank_def shaped_blank_arrays)
next
  case (random sample s)
  then show ?case
    by (auto simp: init_def blank_def split: sum.splits)
qed

lemma check_game_state_flags:
  "(won s \<longrightarrow> won (check_game_state s)) \<and> (lost s \<longrightarrow> lost (check_game_state s)) \<and>
   (\<not> won s \<and> \<not> lost s \<longrightarrow> \<not> (won (check_game_state s) \<and> lost (check_game_state s)))"
  by (simp add: check_game_state_def)

lemma sweep_tile_flags:
  assumes "sweep_tile s loc = Inr s'"
  shows "(won s \<longrightarrow> won s') \<and> (lost s \<longrightarrow> lost s') \<and>
    (\<not> won s \<and> \<not> lost s \<longrightarrow> \<not> (won s' \<and> lost s'))"
proof -
  from assms obtain sw g where "s' = check_game_state (s\<lparr>swept := sw, grid := g\<rparr>)"
    by (rule sweep_tile_Inr)
  then show ?thesis
    using check_game_state_flags [of "s\<lparr>swept := sw, grid := g\<rparr>"] by simp
qed

lemma reaches_flags_kept:
  "reaches may_sweep s s' \<Longrightarrow> (won s \<longrightarrow> won s') \<and> (lost s \<longrightarrow> lost s')"
proof (induction rule: reaches.induct)
  case start
  show ?case by simp
next
  case (sweep s1 location s2)
  with sweep_tile_flags [of s1 location s2] show ?case by blast
next
  case (flag s1 location s2)
  with flag_tile_arrays(3,4) [of s1 location s2] show ?case by simp
next
  case (clear s1)
  then show ?case by (simp add: clear_swept_flags_def)
next
  case (exit s1)
  then show ?case by (simp add: exit_game_def)
qed

lemma reaches_in_progress:
  "reaches in_progress s0 s \<Longrightarrow> \<not> (won s0 \<and> lost s0) \<Longrightarrow> \<not> (won s \<and> lost s)"
proof (induction rule: reaches.induct)
  case start
  then show ?case by simp
next
  case (sweep s1 location s2)
  with sweep_tile_flags [of s1 location s2] show ?case
    by (simp add: in_progress_def)
next
  case (flag s1 location s2)
  with flag_tile_arrays(3,4) [of s1 location s2] show ?case by simp
next
  case (clear s1)
  then show ?case by (simp add: clear_swept_flags_def)
next
  case (exit s1)
  then show ?case by (simp add: exit_game_def)
qed

lemma crowded_board_init: "init [] (Some (map tuple2 (tl all_locations))) = Inr crowded_board"
proof -
  have "\<not> isl (init [] (Some (map tuple2 (tl all_locations))))"
    by code_simp
  then show ?thesis
    by (simp add: crowded_board_def)
qed

text \<open>
  C5. The claim: \<open>won\<close> and \<open>lost\<close> are never both true. Nothing stops a sweep after the
  game has ended: on the board with a mine on every tile but (0, 0), sweeping (0, 0) wins the
  game, and sweeping the mine at (0, 1) after that sets \<open>lost\<close> while \<open>won\<close> stays set.
\<close>

theorem won_and_lost:
  "init [] (Some (map tuple2 (tl all_locations))) = Inr crowded_board \<and>
   \<not> isl (play crowded_board [Sweep (0, 0), Sweep (0, 1)]) \<and>
   won (projr (play crowded_board [Sweep (0, 0), Sweep (0, 1)])) \<and>
   lost (projr (play crowded_board [Sweep (0, 0), Sweep (0, 1)]))"
proof -
  have "\<not> isl (play crowded_board [Sweep (0, 0), Sweep (0, 1)])"
    by code_simp
  moreover have "won (projr (play crowded_board [Sweep (0, 0), Sweep (0, 1)]))"
    by code_simp
  moreover have "lost (projr (play crowded_board [Sweep (0, 0), Sweep (0, 1)]))"
    by code_simp
  ultimately show ?thesis
    using crowded_board_init by simp
qed

text \<open>
  C5, as the code has it: a flag that is set stays set, whatever is called afterwards; and
  as long as every sweep is made while the game is neither won nor lost (the command line
  loop ends the game at the first of the two), \<open>won\<close> and \<open>lost\<close> are not both true.
\<close>

theorem won_lost_flags:
  "(reaches any_sweep s s' \<longrightarrow> (won s \<longrightarrow> won s') \<and> (lost s \<longrightarrow> lost s')) \<and>
   (constructed s \<and> reaches in_progress s s' \<longrightarrow> \<not> (won s' \<and> lost s'))"
  using reaches_flags_kept [of any_sweep s s'] reaches_in_progress [of s s'] constructed_flags [of s]
  by blast

text \<open>Sweeping the mine at (1, 6) of the test board, and the tile (0, 0) after that.\<close>

theorem won_lost_flags_witness:
  "constructed test_board \<and>
   reaches in_progress test_board (projr (sweep_tile test_board (1, 6))) \<and>
   lost (projr (sweep_tile test_board (1, 6))) \<and> \<not> won (projr (sweep_tile test_board (1, 6))) \<and>
   reaches any_sweep (projr (sweep_tile test_board (1, 6)))
     (projr (play test_board [Sweep (1, 6), Sweep (0, 0)])) \<and>
   lost (projr (play test_board [Sweep (1, 6), Sweep (0, 0)]))"
proof -
  let ?s1 = "projr (sweep_tile test_board (1, 6))"
  let ?s2 = "projr (play test_board [Sweep (1, 6), Sweep (0, 0)])"
  have "\<not> isl (sweep_tile test_board (1, 6))"
    by code_simp
  then have e1: "sweep_tile test_board (1, 6) = Inr ?s1"
    by simp
  have "\<not> isl (play test_board [Sweep (1, 6), Sweep (0, 0)])"
    by code_simp
  then have e2: "sweep_tile ?s1 (0, 0) = Inr ?s2"
    using e1 by (simp split: sum.splits)
  have p: "in_progress test_board (1, 6)"
    unfolding in_progress_def by code_simp
  have r1: "reaches in_progress test_board ?s1"
    using reaches.start p e1 by (rule reaches.sweep)
  have r2: "reaches any_sweep ?s1 ?s2"
    using reaches.start _ e2 by (rule reaches.sweep) (simp add: any_sweep_def)
  have l: "lost ?s1"
    by code_simp
  show ?thesis
    using won_lost_flags [of ?s1 ?s2] won_lost_flags [of test_board ?s1]
      test_board_constructed r1 r2 l
    by blast
qed

subsection \<open>Counting the mines of the board\<close>

lemma filter_update_count:
  "i < length xs \<Longrightarrow>
   length (filter P (xs[i := v])) + (if P (xs ! i) then 1 else 0) =
   length (filter P xs) + (if P v then 1 else 0)"
proof (induction xs arbitrary: i)
  case Nil
  then show ?case by simp
next
  case (Cons x xs)
  show ?case
  proof (cases i)
    case 0
    then show ?thesis by simp
  next
    case (Suc j)
    with Cons.prems have "j < length xs" by simp
    from Cons.IH [OF this] Suc show ?thesis by simp
  qed
qed

lemma concat_update_count:
  "i < length a \<Longrightarrow>
   length (filter P (concat (a[i := r]))) + length (filter P (a ! i)) =
   length (filter P (concat a)) + length (filter P r)"
proof (induction a arbitrary: i)
  case Nil
  then show ?case by simp
next
  case (Cons x a)
  show ?case
  proof (cases i)
    case 0
    then show ?thesis by simp
  next
    case (Suc j)
    with Cons.prems have "j < length a" by simp
    from Cons.IH [OF this] Suc show ?thesis by simp
  qed
qed

lemma mined_cells_replaced:
  assumes "shaped a" and "in_bounds l"
  shows "mined_cells (replaced a l v) + (if cell a l = mine \<or> cell a l = exploded then 1 else 0) =
     mined_cells a + (if v = mine \<or> v = exploded then 1 else 0)"
proof -
  let ?P = "\<lambda>x. x = mine \<or> x = exploded"
  let ?i = "nat (fst l)" and ?j = "nat (snd l)"
  have i: "?i < length a"
    using assms in_bounds_nat [of l] by (simp add: shaped_def)
  then have "a ! ?i \<in> set a"
    by simp
  then have j: "?j < length (a ! ?i)"
    using assms in_bounds_nat [of l] by (simp add: shaped_def)
  have "length (filter ?P (concat (a[?i := (a ! ?i)[?j := v]]))) + length (filter ?P (a ! ?i)) =
        length (filter ?P (concat a)) + length (filter ?P ((a ! ?i)[?j := v]))"
    using i by (rule concat_update_count)
  moreover have "length (filter ?P ((a ! ?i)[?j := v])) + (if ?P (a ! ?i ! ?j) then 1 else 0) =
        length (filter ?P (a ! ?i)) + (if ?P v then 1 else 0)"
    using j by (rule filter_update_count)
  ultimately show ?thesis
    unfolding mined_cells_def replaced_def cell_def by linarith
qed

lemma cell_replaced_other:
  assumes "shaped a" and "in_bounds l" and "in_bounds l'" and "l \<noteq> l'"
  shows "cell (replaced a l v) l' = cell a l'"
proof (cases "fst l = fst l'")
  case True
  with assms(4) have "snd l \<noteq> snd l'"
    by (simp add: prod_eq_iff)
  then have "nat (snd l) \<noteq> nat (snd l')"
    using assms(2,3) by (simp add: in_bounds_def eq_nat_nat_iff)
  moreover have "nat (fst l) < length a"
    using assms(1) in_bounds_nat [OF assms(2)] by (simp add: shaped_def)
  ultimately show ?thesis
    using True by (simp add: cell_def replaced_def)
next
  case False
  then have "nat (fst l) \<noteq> nat (fst l')"
    using assms(2,3) by (simp add: in_bounds_def eq_nat_nat_iff)
  then show ?thesis
    by (simp add: cell_def replaced_def)
qed

lemma sweep_tile_mined_cells:
  assumes "well_formed s" and "not_detonated s loc" and "sweep_tile s loc = Inr s'"
  shows "mined_cells (grid s') = mined_cells (grid s) \<and> number_of_mines s' = number_of_mines s"
proof -
  have g: "shaped (grid s)"
    using assms(1) by (simp add: well_formed_def)
  from assms(3) obtain sw x v g' where x: "getitem (grid s) loc = Inr x"
    and v: "if x = mine then v = exploded else sum_adjacent_mines (s\<lparr>swept := sw\<rparr>) loc = Inr v"
    and g': "setitem (grid s) loc v = Inr g'"
    and s': "s' = check_game_state (s\<lparr>swept := sw, grid := g'\<rparr>)"
    by (rule sweep_tile_Inr)
  from x have ix: "indexable loc" and xc: "x = cell (grid s) (wrapped loc)"
    by (simp_all add: getitem_indexable [OF g] split: if_splits)
  from g' ix have ge: "g' = replaced (grid s) (wrapped loc) v"
    by (simp add: setitem_indexable [OF g])
  from assms(2) x have nx: "x \<noteq> exploded"
    by (simp add: not_detonated_def)
  have same: "(x = mine \<or> x = exploded) = (v = mine \<or> v = exploded)"
  proof (cases "x = mine")
    case True
    with v show ?thesis by simp
  next
    case False
    with v have "v = int (adjacent_mines (grid s) loc)"
      by (simp add: sum_adjacent_mines_eq g)
    with adjacent_mines_le [of "grid s" loc] have "v \<noteq> mine" "v \<noteq> exploded"
      by (simp_all add: mine_def exploded_def)
    with False nx show ?thesis by simp
  qed
  have "mined_cells g' = mined_cells (grid s)"
    using mined_cells_replaced [OF g indexable_wrapped, of loc v] same
    unfolding ge xc by simp
  with s' show ?thesis
    by (simp add: check_game_state_arrays)
qed

lemma reaches_mined_cells:
  "reaches not_detonated s0 s \<Longrightarrow> well_formed s0 \<Longrightarrow>
   mined_cells (grid s) = mined_cells (grid s0) \<and> number_of_mines s = number_of_mines s0"
proof (induction rule: reaches.induct)
  case start
  show ?case by simp
next
  case (sweep s1 location s2)
  have "well_formed s1"
    using sweep.hyps(1) sweep.prems by (rule reaches_well_formed)
  from sweep_tile_mined_cells [OF this sweep.hyps(2,3)] sweep.IH [OF sweep.prems]
  show ?case by simp
next
  case (flag s1 location s2)
  with flag_tile_arrays(1,6) [of s1 location s2] show ?case by simp
next
  case (clear s1)
  then show ?case by (simp add: clear_swept_flags_def)
next
  case (exit s1)
  then show ?case by (simp add: exit_game_def)
qed

lemma unpack2_Inr:
  assumes "unpack2 l = Inr (a, b)"
  shows "(\<exists>x y. l = PStr [x, y] \<and> a = PStr [x] \<and> b = PStr [y]) \<or>
         l = PTuple [a, b] \<or> l = PList [a, b]"
  using assms by (rule unpack2.elims) simp_all

lemma py_ge_number: "py_ge x n = Inr b \<Longrightarrow> number x"
  by (cases x) simp_all

text \<open>What \<open>valid_location\<close> accepts is a tuple or a list of two numbers.\<close>

lemma valid_location_True:
  assumes "valid_location l = Inr True"
  shows "\<exists>x y. (l = PTuple [x, y] \<or> l = PList [x, y]) \<and> number x \<and> number y"
proof (cases "unpack2 l")
  case (Inl e)
  with assms show ?thesis by (simp add: valid_location_def)
next
  case (Inr p)
  obtain x y where p: "p = (x, y)"
    by (cases p)
  have x: "number x"
  proof (cases "py_ge x (int rows)")
    case (Inl e)
    with assms Inr p show ?thesis by (simp add: valid_location_def py_or_def)
  next
    case (Inr b)
    then show ?thesis by (rule py_ge_number)
  qed
  have y: "number y"
  proof (cases "py_ge y (int cols)")
    case (Inl e)
    with assms Inr p show ?thesis
      by (auto simp: valid_location_def py_or_def split: sum.splits bool.splits)
  next
    case (Inr b)
    then show ?thesis by (rule py_ge_number)
  qed
  from Inr p unpack2_Inr [of l x y]
  have "(\<exists>a b. l = PStr [a, b] \<and> x = PStr [a] \<and> y = PStr [b]) \<or>
        l = PTuple [x, y] \<or> l = PList [x, y]"
    by simp
  with x y show ?thesis
    by auto
qed

lemma setitem_py_tuple2:
  "in_bounds loc \<Longrightarrow> setitem_py a (tuple2 loc) v = setitem a loc v"
  by (cases loc)
    (simp add: tuple2_def setitem_def as_index_in_bounds as_intp_board in_bounds_def
      rows_def cols_def)

lemma int_tuple_tuple2: "int_tuple l \<Longrightarrow> \<exists>loc. l = tuple2 loc"
  by (induction l rule: int_tuple.induct) (simp_all add: tuple2_def)

lemma lay_given_count:
  assumes "lay_given locs s = Inr s'" and "shaped (grid s)"
    and "distinct (filter (\<lambda>l. valid_location l = Inr True) locs)"
    and "\<forall>l \<in> set locs. valid_location l = Inr True \<longrightarrow> int_tuple l"
    and "\<forall>loc. in_bounds loc \<and> tuple2 loc \<in> set locs \<longrightarrow>
           cell (grid s) loc \<noteq> mine \<and> cell (grid s) loc \<noteq> exploded"
  shows "int (mined_cells (grid s')) - number_of_mines s' =
         int (mined_cells (grid s)) - number_of_mines s"
  using assms
proof (induction locs arbitrary: s)
  case Nil
  then show ?case by simp
next
  case (Cons l locs)
  show ?case
  proof (cases "valid_location l")
    case (Inl e)
    with Cons.prems(1) show ?thesis by simp
  next
    case (Inr b)
    show ?thesis
    proof (cases b)
      case False
      with Inr Cons.prems have f1: "lay_given locs s = Inr s'"
        and f2: "distinct (filter (\<lambda>l. valid_location l = Inr True) locs)"
        and f3: "\<forall>l \<in> set locs. valid_location l = Inr True \<longrightarrow> int_tuple l"
        and f4: "\<forall>loc. in_bounds loc \<and> tuple2 loc \<in> set locs \<longrightarrow>
               cell (grid s) loc \<noteq> mine \<and> cell (grid s) loc \<noteq> exploded"
        by simp_all
      show ?thesis
        using f1 Cons.prems(2) f2 f3 f4 by (rule Cons.IH)
    next
      case True
      with Inr have v: "valid_location l = Inr True"
        by simp
      with Cons.prems(4) have "int_tuple l"
        by simp
      then obtain loc where l: "l = tuple2 loc"
        using int_tuple_tuple2 by blast
      with v have b: "in_bounds loc"
        by (simp add: valid_location_tuple2)
      let ?g = "replaced (grid s) loc mine"
      let ?s = "s\<lparr>grid := ?g, number_of_mines := number_of_mines s + 1\<rparr>"
      have set: "setitem_py (grid s) l mine = Inr ?g"
        using l b Cons.prems(2) by (simp add: setitem_py_tuple2 setitem_in_bounds)
      with Inr True Cons.prems(1) have rest: "lay_given locs ?s = Inr s'"
        by simp
      have sh: "shaped (grid ?s)"
        using Cons.prems(2) by (simp add: replaced_def shaped_update)
      have dis: "distinct (filter (\<lambda>l. valid_location l = Inr True) locs)"
        and notin: "l \<notin> set (filter (\<lambda>l. valid_location l = Inr True) locs)"
        using Cons.prems(3) Inr True by simp_all
      have tup: "\<forall>l \<in> set locs. valid_location l = Inr True \<longrightarrow> int_tuple l"
        using Cons.prems(4) by simp
      have old: "cell (grid s) loc \<noteq> mine \<and> cell (grid s) loc \<noteq> exploded"
        using Cons.prems(5) [rule_format, of loc] l b by simp
      have others: "\<forall>loc'. in_bounds loc' \<and> tuple2 loc' \<in> set locs \<longrightarrow>
               cell (grid ?s) loc' \<noteq> mine \<and> cell (grid ?s) loc' \<noteq> exploded"
      proof (intro allI impI)
        fix loc'
        assume a: "in_bounds loc' \<and> tuple2 loc' \<in> set locs"
        then have "tuple2 loc' \<in> set (filter (\<lambda>l. valid_location l = Inr True) locs)"
          by (simp add: valid_location_tuple2)
        with notin l have "loc \<noteq> loc'"
          by auto
        with a b Cons.prems(2) have "cell ?g loc' = cell (grid s) loc'"
          by (simp add: cell_replaced_other)
        with a Cons.prems(5) [rule_format, of loc']
        show "cell (grid ?s) loc' \<noteq> mine \<and> cell (grid ?s) loc' \<noteq> exploded"
          by simp
      qed
      have "mined_cells ?g = mined_cells (grid s) + 1"
        using mined_cells_replaced [OF Cons.prems(2) b, of mine] old by simp
      with Cons.IH [OF rest sh dis tup others] show ?thesis
        by simp
    qed
  qed
qed

lemma flat_in_bounds: "n < rows * cols \<Longrightarrow> in_bounds (int (n div cols), int (n mod cols))"
  by (simp add: in_bounds_def rows_def cols_def)

lemma flat_inject:
  assumes "(int (n div cols), int (n mod cols)) = (int (m div cols), int (m mod cols))"
  shows "n = m"
proof -
  from assms have "n div cols = m div cols" and "n mod cols = m mod cols"
    by simp_all
  then have "n div cols * cols + n mod cols = m div cols * cols + m mod cols"
    by simp
  then show ?thesis
    by (simp only: div_mult_mod_eq)
qed

lemma lay_sampled_count:
  assumes "lay_sampled smp g = Inr g'" and "shaped g" and "distinct smp"
    and "\<forall>n \<in> set smp. n < rows * cols"
    and "\<forall>n \<in> set smp. cell g (int (n div cols), int (n mod cols)) \<noteq> mine \<and>
                          cell g (int (n div cols), int (n mod cols)) \<noteq> exploded"
  shows "mined_cells g' = mined_cells g + length smp"
  using assms
proof (induction smp arbitrary: g)
  case Nil
  then show ?case by simp
next
  case (Cons n smp)
  let ?loc = "(int (n div cols), int (n mod cols))"
  let ?g = "replaced g ?loc mine"
  have b: "in_bounds ?loc"
    using Cons.prems(4) by (simp add: flat_in_bounds)
  have "setitem g ?loc mine = Inr ?g"
    using Cons.prems(2) b by (rule setitem_in_bounds)
  with Cons.prems(1) have rest: "lay_sampled smp ?g = Inr g'"
    by simp
  have sh: "shaped ?g"
    using Cons.prems(2) by (simp add: replaced_def shaped_update)
  have others: "\<forall>m \<in> set smp. cell ?g (int (m div cols), int (m mod cols)) \<noteq> mine \<and>
                          cell ?g (int (m div cols), int (m mod cols)) \<noteq> exploded"
  proof
    fix m
    assume m: "m \<in> set smp"
    with Cons.prems(3) have "n \<noteq> m"
      by auto
    then have "?loc \<noteq> (int (m div cols), int (m mod cols))"
      using flat_inject [of n m] by blast
    moreover have "in_bounds (int (m div cols), int (m mod cols))"
      using Cons.prems(4) m by (simp add: flat_in_bounds)
    ultimately have "cell ?g (int (m div cols), int (m mod cols)) =
        cell g (int (m div cols), int (m mod cols))"
      using Cons.prems(2) b by (simp add: cell_replaced_other)
    with Cons.prems(5) m
    show "cell ?g (int (m div cols), int (m mod cols)) \<noteq> mine \<and>
          cell ?g (int (m div cols), int (m mod cols)) \<noteq> exploded"
      by simp
  qed
  have "mined_cells ?g = mined_cells g + 1"
    using mined_cells_replaced [OF Cons.prems(2) b, of mine] Cons.prems(5) by simp
  moreover have "mined_cells g' = mined_cells ?g + length smp"
    using rest sh _ _ others by (rule Cons.IH) (use Cons.prems in simp_all)
  ultimately show ?case
    by simp
qed

lemma blank_unexplored: "in_bounds loc \<Longrightarrow> cell (grid blank) loc = unexplored"
  using in_bounds_nat [of loc]
  by (simp add: blank_def fill_def zeros_def cell_def)

lemma blank_mined_cells: "mined_cells (grid blank) = 0"
  by (simp add: mined_cells_def blank_def fill_def zeros_def unexplored_def mine_def exploded_def)

lemma init_given_count:
  assumes "init sample (Some given) = Inr s0" and "no_repeats given" and "tuples_only given"
  shows "int (mined_cells (grid s0)) = number_of_mines s0"
proof -
  let ?b = "blank\<lparr>number_of_mines := 0\<rparr>"
  have l: "lay_given given ?b = Inr s0"
    using assms(1) by (simp add: init_def)
  have sh: "shaped (grid ?b)"
    by (simp add: blank_def shaped_blank_arrays)
  have d: "distinct (filter (\<lambda>l. valid_location l = Inr True) given)"
    using assms(2) by (simp add: no_repeats_def)
  have t: "\<forall>l \<in> set given. valid_location l = Inr True \<longrightarrow> int_tuple l"
    using assms(3) by (simp add: tuples_only_def)
  have u: "\<forall>loc. in_bounds loc \<and> tuple2 loc \<in> set given \<longrightarrow>
           cell (grid ?b) loc \<noteq> mine \<and> cell (grid ?b) loc \<noteq> exploded"
    by (simp add: blank_unexplored unexplored_def mine_def exploded_def)
  have "int (mined_cells (grid s0)) - number_of_mines s0 =
        int (mined_cells (grid ?b)) - number_of_mines ?b"
    using l sh d t u by (rule lay_given_count)
  then show ?thesis
    by (simp add: blank_mined_cells)
qed

lemma init_random_count:
  assumes "init sample None = Inr s0" and "sampled sample"
  shows "int (mined_cells (grid s0)) = number_of_mines s0"
proof -
  from assms(1) obtain g where g: "lay_sampled sample (grid blank) = Inr g"
    and s0: "s0 = blank\<lparr>number_of_mines := 10, grid := g\<rparr>"
    by (cases "lay_sampled sample (grid blank)") (simp_all add: init_def)
  have sh: "shaped (grid blank)"
    by (simp add: blank_def shaped_blank_arrays)
  have d: "distinct sample" and n: "\<forall>n \<in> set sample. n < rows * cols" and len: "length sample = 10"
    using assms(2) by (simp_all add: sampled_def)
  have u: "\<forall>n \<in> set sample. cell (grid blank) (int (n div cols), int (n mod cols)) \<noteq> mine \<and>
                             cell (grid blank) (int (n div cols), int (n mod cols)) \<noteq> exploded"
    using n by (simp add: blank_unexplored flat_in_bounds unexplored_def mine_def exploded_def)
  have "mined_cells g = mined_cells (grid blank) + length sample"
    using g sh d n u by (rule lay_sampled_count)
  with s0 len show ?thesis
    by (simp add: blank_mined_cells)
qed

subsection \<open>The number of mines\<close>

text \<open>
  C2. The claim: no call after the construction changes the number of tiles that hold a
  mine, detonated or not. \<open>sweep_tile\<close> treats a detonated mine as any tile that is not a
  mine: sweeping the mine at (1, 6) of the test board twice leaves the count of its
  neighbours there, and two mined tiles on a board with \<open>number_of_mines = 3\<close>.
\<close>

theorem sweep_detonated_again:
  "init [] (Some [tuple2 (1, 6), tuple2 (3, 1), tuple2 (5, 1)]) = Inr test_board \<and>
   \<not> isl (play test_board [Sweep (1, 6), Sweep (1, 6)]) \<and>
   number_of_mines (projr (play test_board [Sweep (1, 6), Sweep (1, 6)])) = 3 \<and>
   mined_cells (grid (projr (play test_board [Sweep (1, 6), Sweep (1, 6)]))) = 2"
proof -
  have "\<not> isl (play test_board [Sweep (1, 6), Sweep (1, 6)])"
    by code_simp
  moreover have "number_of_mines (projr (play test_board [Sweep (1, 6), Sweep (1, 6)])) = 3"
    by code_simp
  moreover have "mined_cells (grid (projr (play test_board [Sweep (1, 6), Sweep (1, 6)]))) = 2"
    by code_simp
  ultimately show ?thesis
    using test_board_init by simp
qed

text \<open>
  A candidate that is no tuple of two integers can pass \<open>valid_location\<close> as well, and is
  then the index of the assignment as it is: the list \<open>[1, 1]\<close> lays eight mines, the
  whole row 1, and the tuple \<open>(True, False)\<close> lays none, each counted as one mine; the tuple
  \<open>(1.5, 2.5)\<close> ends the construction with an \<^verbatim>\<open>IndexError\<close>.
\<close>

lemma init_other_entries:
  "map_sum id (\<lambda>s. (number_of_mines s, mined_cells (grid s)))
     (init [] (Some [PList [PInt 1, PInt 1]])) = Inr (1, 8)"
  "map_sum id (\<lambda>s. (number_of_mines s, mined_cells (grid s)))
     (init [] (Some [PTuple [PBool True, PBool False]])) = Inr (1, 0)"
  "init [] (Some [PTuple [PFloat (Finite (3 / 2)), PFloat (Finite (5 / 2))]]) = Inl IndexError"
  by code_simp+

text \<open>
  C2, as the code has it: when the game is constructed at random, or from a list in which
  every candidate that \<open>valid_location\<close> accepts is a tuple of two integers and none of
  these occurs twice, then in every state reached by calls of \<open>sweep_tile\<close> on tiles that
  do not hold a detonated mine, and of \<open>flag_tile\<close>, \<open>clear_swept_flags\<close> and \<open>exit_game\<close>,
  exactly \<open>number_of_mines\<close> tiles hold a mine, detonated or not, and both numbers are those
  of the construction.
\<close>

theorem mined_cells_invariant:
  assumes "init sample locations = Inr s0"
    and "case locations of None \<Rightarrow> sampled sample
         | Some given \<Rightarrow> tuples_only given \<and> no_repeats given"
    and "reaches not_detonated s0 s"
  shows "int (mined_cells (grid s)) = number_of_mines s \<and>
     mined_cells (grid s) = mined_cells (grid s0) \<and> number_of_mines s = number_of_mines s0"
proof -
  have c: "constructed s0 \<and> int (mined_cells (grid s0)) = number_of_mines s0"
  proof (cases locations)
    case None
    with assms(1,2) have i: "init sample None = Inr s0" and s: "sampled sample"
      by simp_all
    from s i have "constructed s0"
      by (rule constructed.random)
    with init_random_count [OF i s] show ?thesis
      by simp
  next
    case (Some given)
    with assms(1,2) have i: "init sample (Some given) = Inr s0" and n: "no_repeats given"
      and t: "tuples_only given"
      by simp_all
    from i have "constructed s0"
      by (rule constructed.given)
    with init_given_count [OF i n t] show ?thesis
      by simp
  qed
  then have "well_formed s0"
    by (simp add: constructed_well_formed)
  with assms(3) have "mined_cells (grid s) = mined_cells (grid s0) \<and>
      number_of_mines s = number_of_mines s0"
    by (rule reaches_mined_cells)
  with c show ?thesis
    by simp
qed

text \<open>The test board after the sweep of its mine at (1, 6): three mined tiles, one detonated.\<close>

theorem mined_cells_invariant_witness:
  "init [] (Some [tuple2 (1, 6), tuple2 (3, 1), tuple2 (5, 1)]) = Inr test_board \<and>
   tuples_only [tuple2 (1, 6), tuple2 (3, 1), tuple2 (5, 1)] \<and>
   no_repeats [tuple2 (1, 6), tuple2 (3, 1), tuple2 (5, 1)] \<and>
   reaches not_detonated test_board (projr (sweep_tile test_board (1, 6))) \<and>
   int (mined_cells (grid (projr (sweep_tile test_board (1, 6))))) =
     number_of_mines (projr (sweep_tile test_board (1, 6))) \<and>
   number_of_mines (projr (sweep_tile test_board (1, 6))) = 3 \<and>
   cell (grid (projr (sweep_tile test_board (1, 6)))) (1, 6) = exploded \<and>
   sampled [0, 1, 2, 3, 4, 5, 6, 7, 8, 9] \<and>
   init [0, 1, 2, 3, 4, 5, 6, 7, 8, 9] None = Inr (projr (init [0, 1, 2, 3, 4, 5, 6, 7, 8, 9] None)) \<and>
   mined_cells (grid (projr (init [0, 1, 2, 3, 4, 5, 6, 7, 8, 9] None))) = 10"
proof -
  let ?r = "projr (init [0, 1, 2, 3, 4, 5, 6, 7, 8, 9] None)"
  have sm: "sampled [0, 1, 2, 3, 4, 5, 6, 7, 8, 9]"
    by code_simp
  have "\<not> isl (init [0, 1, 2, 3, 4, 5, 6, 7, 8, 9] None)"
    by code_simp
  then have ir: "init [0, 1, 2, 3, 4, 5, 6, 7, 8, 9] None = Inr ?r"
    by simp
  have nr: "number_of_mines ?r = 10"
    by code_simp
  have mr: "mined_cells (grid ?r) = 10"
    using mined_cells_invariant [of "[0, 1, 2, 3, 4, 5, 6, 7, 8, 9]" None ?r ?r] ir sm nr
      reaches.start [of not_detonated ?r]
    by simp
  let ?s1 = "projr (sweep_tile test_board (1, 6))"
  have n: "no_repeats [tuple2 (1, 6), tuple2 (3, 1), tuple2 (5, 1)]"
    by code_simp
  have t: "tuples_only [tuple2 (1, 6), tuple2 (3, 1), tuple2 (5, 1)]"
    by code_simp
  have "\<not> isl (sweep_tile test_board (1, 6))"
    by code_simp
  then have e: "sweep_tile test_board (1, 6) = Inr ?s1"
    by simp
  have "getitem (grid test_board) (1, 6) \<noteq> Inr exploded"
    by code_simp
  then have d: "not_detonated test_board (1, 6)"
    by (simp add: not_detonated_def)
  have r: "reaches not_detonated test_board ?s1"
    using reaches.start d e by (rule reaches.sweep)
  have k: "number_of_mines ?s1 = 3" "cell (grid ?s1) (1, 6) = exploded"
    by code_simp+
  show ?thesis
    using mined_cells_invariant [of "[]" "Some [tuple2 (1, 6), tuple2 (3, 1), tuple2 (5, 1)]"
        test_board ?s1] test_board_init n t r k sm ir mr
    by simp
qed

end
